theory Spec2Isabelle
  imports Complex_Main
begin

section \<open>Constants and numbers\<close>

text \<open>
  The sequencer of \<^verbatim>\<open>src/routes/+page.svelte\<close>. Counts, indices and pattern ids are
  natural numbers; grid coordinates are integers, because the keyboard nudge and the drag
  compute coordinates that may be negative before they are checked against the grid.
\<close>

definition NUM_OCTAVES :: nat where "NUM_OCTAVES = 6"
definition NUM_PITCHES :: nat where "NUM_PITCHES = NUM_OCTAVES * 12"
definition BASE_MIDI_NOTE :: int where "BASE_MIDI_NOTE = 48"
definition MIN_BPM :: rat where "MIN_BPM = 40"
definition MAX_BPM :: rat where "MAX_BPM = 300"
definition MIN_BEATS_PER_MEASURE :: nat where "MIN_BEATS_PER_MEASURE = 1"
definition MAX_BEATS_PER_MEASURE :: nat where "MAX_BEATS_PER_MEASURE = 16"
definition MIN_STEPS_PER_BEAT :: nat where "MIN_STEPS_PER_BEAT = 1"
definition MAX_STEPS_PER_BEAT :: nat where "MAX_STEPS_PER_BEAT = 16"
definition MAX_MEASURES :: nat where "MAX_MEASURES = 8"
definition MIN_PATTERN_ID :: nat where "MIN_PATTERN_ID = 0"
definition MAX_PATTERNS :: nat where "MAX_PATTERNS = 8"

text \<open>
  A JavaScript number as the meter and tempo fields hold it: a finite value, or a value
  that \<^verbatim>\<open>Number.isFinite\<close> rejects (NaN, an infinity, or the \<^verbatim>\<open>null\<close> that an empty
  number input binds).
\<close>

datatype jsnum = Finite rat | NonFinite

definition js_trunc :: "rat \<Rightarrow> int" where
  "js_trunc v = (if 0 \<le> v then \<lfloor>v\<rfloor> else \<lceil>v\<rceil>)"

fun clampBpm :: "jsnum \<Rightarrow> rat" where
  "clampBpm NonFinite = MIN_BPM"
| "clampBpm (Finite v) =
     (if v < MIN_BPM then MIN_BPM else if v > MAX_BPM then MAX_BPM else v)"

fun clampBeatsPerMeasure :: "jsnum \<Rightarrow> nat" where
  "clampBeatsPerMeasure NonFinite = MIN_BEATS_PER_MEASURE"
| "clampBeatsPerMeasure (Finite v) =
     (if v < of_nat MIN_BEATS_PER_MEASURE then MIN_BEATS_PER_MEASURE
      else if v > of_nat MAX_BEATS_PER_MEASURE then MAX_BEATS_PER_MEASURE
      else nat (js_trunc v))"

fun clampStepsPerBeat :: "jsnum \<Rightarrow> nat" where
  "clampStepsPerBeat NonFinite = MIN_STEPS_PER_BEAT"
| "clampStepsPerBeat (Finite v) =
     (if v < of_nat MIN_STEPS_PER_BEAT then MIN_STEPS_PER_BEAT
      else if v > of_nat MAX_STEPS_PER_BEAT then MAX_STEPS_PER_BEAT
      else nat (js_trunc v))"

section \<open>Patterns\<close>

text \<open>
  A step is its \<^verbatim>\<open>pitches\<close> array, a layer is an array of steps. Every step object and
  every \<^verbatim>\<open>pitches\<close> array is allocated on its own (\<^verbatim>\<open>Array.from\<close> with a factory,
  \<^verbatim>\<open>push\<close> of a fresh object), so no two cells alias and in-place mutation is modelled
  by returning the updated value.
\<close>

type_synonym Step = "bool list"
type_synonym Layer = "Step list"
type_synonym PatternId = nat

record Pattern =
  pid :: PatternId
  beatsPerMeasure :: jsnum
  patStepsPerBeat :: jsnum
  layers :: "Layer list"

definition emptyStep :: Step where
  "emptyStep = replicate NUM_PITCHES False"

definition createStepLayer :: "nat \<Rightarrow> Layer" where
  "createStepLayer stepCount = replicate stepCount emptyStep"

definition createPattern :: "PatternId \<Rightarrow> jsnum \<Rightarrow> jsnum \<Rightarrow> Pattern" where
  "createPattern patternId beats steps =
     (let clampedBeats = clampBeatsPerMeasure beats;
          clampedSteps = clampStepsPerBeat steps;
          stepsCount = clampedBeats * clampedSteps
      in \<lparr> pid = patternId,
           beatsPerMeasure = Finite (of_nat clampedBeats),
           patStepsPerBeat = Finite (of_nat clampedSteps),
           layers = [createStepLayer stepsCount, createStepLayer stepsCount] \<rparr>)"

definition findPattern :: "Pattern list \<Rightarrow> PatternId \<Rightarrow> Pattern option" where
  "findPattern ps patternId = find (\<lambda>p. pid p = patternId) ps"

section \<open>Sequence timeline\<close>

definition stepsPerPattern :: "Pattern list \<Rightarrow> PatternId \<Rightarrow> nat" where
  "stepsPerPattern ps patternId =
     (case findPattern ps patternId of
        None \<Rightarrow> 4 * 4
      | Some pattern \<Rightarrow>
          clampBeatsPerMeasure (beatsPerMeasure pattern) * clampStepsPerBeat (patStepsPerBeat pattern))"

text \<open>
  The loop of \<^verbatim>\<open>getStepForSequenceIndex\<close>: \<open>i\<close> is the loop counter, \<open>sm\<close> the variable \<^verbatim>\<open>sum\<close>, \<open>rest\<close> the
  entries of the sequence from \<open>i\<close> on, so \<open>rest = []\<close> is \<^verbatim>\<open>i >= sequence.length\<close>.
\<close>

fun getStepForSequenceIndex_loop ::
  "Pattern list \<Rightarrow> nat \<Rightarrow> nat \<Rightarrow> nat \<Rightarrow> PatternId list \<Rightarrow> nat" where
  "getStepForSequenceIndex_loop ps seqIndex i sm [] = sm"
| "getStepForSequenceIndex_loop ps seqIndex i sm (x # rest) =
     (if i < seqIndex
      then getStepForSequenceIndex_loop ps seqIndex (Suc i) (sm + stepsPerPattern ps x) rest
      else sm)"

definition getStepForSequenceIndex :: "Pattern list \<Rightarrow> PatternId list \<Rightarrow> nat \<Rightarrow> nat" where
  "getStepForSequenceIndex ps sequence seqIndex =
     getStepForSequenceIndex_loop ps seqIndex 0 0 sequence"

record Location =
  patternIndex :: nat
  stepInPattern :: int
  patternId :: PatternId

text \<open>The loop of \<^verbatim>\<open>getPatternAtStep\<close>; \<open>None\<close> is the \<^verbatim>\<open>null\<close> it returns at the end.\<close>

fun getPatternAtStep_loop ::
  "Pattern list \<Rightarrow> int \<Rightarrow> nat \<Rightarrow> nat \<Rightarrow> PatternId list \<Rightarrow> Location option" where
  "getPatternAtStep_loop ps globalStep i acc [] = None"
| "getPatternAtStep_loop ps globalStep i acc (x # rest) =
     (let patSteps = stepsPerPattern ps x
      in if globalStep < int (acc + patSteps)
         then Some \<lparr> patternIndex = i, stepInPattern = globalStep - int acc, patternId = x \<rparr>
         else getPatternAtStep_loop ps globalStep (Suc i) (acc + patSteps) rest)"

definition getPatternAtStep :: "Pattern list \<Rightarrow> PatternId list \<Rightarrow> int \<Rightarrow> Location option" where
  "getPatternAtStep ps sequence globalStep = getPatternAtStep_loop ps globalStep 0 0 sequence"

definition totalSteps :: "Pattern list \<Rightarrow> PatternId list \<Rightarrow> nat" where
  "totalSteps ps sequence = foldl (\<lambda>sm patternId. sm + stepsPerPattern ps patternId) 0 sequence"

section \<open>Meter resize\<close>

text \<open>
  The body of the resize effect for one layer: \<^verbatim>\<open>push\<close> fresh empty steps up to the
  pattern's step count, or set \<^verbatim>\<open>layer.length\<close> to it.
\<close>

fun pushEmptySteps :: "nat \<Rightarrow> Layer \<Rightarrow> Layer" where
  "pushEmptySteps 0 layer = layer"
| "pushEmptySteps (Suc n) layer = pushEmptySteps n (layer @ [emptyStep])"

definition resizeLayer :: "nat \<Rightarrow> Layer \<Rightarrow> Layer" where
  "resizeLayer stepsPerPat layer =
     (if length layer \<noteq> stepsPerPat
      then (if stepsPerPat > length layer
            then pushEmptySteps (stepsPerPat - length layer) layer
            else take stepsPerPat layer)
      else layer)"

text \<open>
  The effect visits every pattern; it changes layers only, so the step count that
  \<^verbatim>\<open>stepsPerPattern\<close> reads from the meter fields is the same before and after.
\<close>

definition resizeEffect :: "Pattern list \<Rightarrow> Pattern list" where
  "resizeEffect ps =
     map (\<lambda>pattern. pattern\<lparr>layers := map (resizeLayer (stepsPerPattern ps (pid pattern))) (layers pattern)\<rparr>) ps"

text \<open>
  Editing the two meter inputs of the pattern at position \<open>i\<close> of the pool
  (\<^verbatim>\<open>bind:value\<close> on \<^verbatim>\<open>beatsPerMeasure\<close> and \<^verbatim>\<open>stepsPerBeat\<close>), after which the effect runs.
\<close>

definition setMeter :: "Pattern list \<Rightarrow> nat \<Rightarrow> jsnum \<Rightarrow> jsnum \<Rightarrow> Pattern list" where
  "setMeter ps i b s = resizeEffect (ps[i := (ps ! i)\<lparr>beatsPerMeasure := b, patStepsPerBeat := s\<rparr>])"

text \<open>
  \<open>spec_clamp x lo hi\<close> is the specification's clamp(x, lo, hi) for a meter value: the integer
  part of a finite \<open>x\<close> brought into the range from \<open>lo\<close> to \<open>hi\<close>; a value that is
  not finite gives \<open>lo\<close>. It is written from the specification and compared with
  \<^verbatim>\<open>clampBeatsPerMeasure\<close> and \<^verbatim>\<open>clampStepsPerBeat\<close> below.
\<close>

definition spec_clamp :: "jsnum \<Rightarrow> nat \<Rightarrow> nat \<Rightarrow> nat" where
  "spec_clamp x lo hi =
     (case x of
        NonFinite \<Rightarrow> lo
      | Finite v \<Rightarrow> nat (max (int lo) (min (int hi) (js_trunc v))))"

section \<open>Scale theory\<close>

datatype Scale =
    Major | NaturalMinor | HarmonicMinor | MelodicMinor | Dorian | Phrygian | Lydian
  | Mixolydian | Locrian | PentatonicMajor | PentatonicMinor | Blues | Chromatic

fun scales :: "Scale \<Rightarrow> int list" where
  "scales Major = [0, 2, 4, 5, 7, 9, 11]"
| "scales NaturalMinor = [0, 2, 3, 5, 7, 8, 10]"
| "scales HarmonicMinor = [0, 2, 3, 5, 7, 8, 11]"
| "scales MelodicMinor = [0, 2, 3, 5, 7, 9, 11]"
| "scales Dorian = [0, 2, 3, 5, 7, 9, 10]"
| "scales Phrygian = [0, 1, 3, 5, 7, 8, 10]"
| "scales Lydian = [0, 2, 4, 6, 7, 9, 11]"
| "scales Mixolydian = [0, 2, 4, 5, 7, 9, 10]"
| "scales Locrian = [0, 1, 3, 5, 6, 8, 10]"
| "scales PentatonicMajor = [0, 2, 4, 7, 9]"
| "scales PentatonicMinor = [0, 3, 5, 7, 10]"
| "scales Blues = [0, 3, 5, 6, 7, 10]"
| "scales Chromatic = [0, 1, 2, 3, 4, 5, 6, 7, 8, 9, 10, 11]"

definition chromatic :: "string list" where
  "chromatic = [''C'', ''C#'', ''D'', ''D#'', ''E'', ''F'', ''F#'', ''G'', ''G#'', ''A'', ''A#'', ''B'']"

text \<open>\<^verbatim>\<open>Array.prototype.indexOf\<close>: the first index of the element, \<open>-1\<close> when it is absent.\<close>

fun indexOf_from :: "int \<Rightarrow> 'a list \<Rightarrow> 'a \<Rightarrow> int" where
  "indexOf_from i [] x = - 1"
| "indexOf_from i (y # ys) x = (if y = x then i else indexOf_from (i + 1) ys x)"

definition getChromaticIndex :: "string \<Rightarrow> int" where
  "getChromaticIndex noteName = indexOf_from 0 chromatic noteName"

text \<open>
  The remainder operator \<^verbatim>\<open>%\<close> on integers with a positive divisor: the result has the
  sign of the dividend.
\<close>

definition js_rem :: "int \<Rightarrow> int \<Rightarrow> int" where
  "js_rem a b = (if 0 \<le> a then a mod b else - ((- a) mod b))"

definition isInScale :: "string \<Rightarrow> Scale \<Rightarrow> int \<Rightarrow> bool" where
  "isInScale k sc pitchIndex =
     (let noteInOctave = js_rem (int NUM_PITCHES - 1 - pitchIndex) 12;
          rootIndex = getChromaticIndex k;
          scaleIntervals = scales sc;
          relativeInterval = js_rem (noteInOctave - rootIndex + 12) 12
      in relativeInterval \<in> set scaleIntervals)"

section \<open>Session state\<close>

datatype OscillatorType = sine | square | sawtooth | triangle

type_synonym SynthId = nat

record Synth =
  sid :: SynthId
  name :: string
  oscType :: OscillatorType
  volume :: rat
  attackMs :: rat
  releaseMs :: rat
  legatoSameNote :: bool

text \<open>
  An entry of the \<^verbatim>\<open>activeNotes\<close> map. The oscillator and gain nodes belong to the
  browser's audio graph; the model keeps the number of the voice (the oscillator and gain
  pair) that was created for the entry, and the release time. Times are rationals: the
  rounding of floating point is not modelled.
\<close>

record ActiveNote =
  voice :: nat
  releaseAt :: rat

text \<open>
  A grid coordinate \<open>(step, pitch)\<close>. The source keeps selected coordinates in a
  \<^verbatim>\<open>Set\<close> of strings \<^verbatim>\<open>`${step}-${pitch}`\<close>; two integer pairs give the same string
  only if they are equal, so the model keeps the pairs, in insertion order as a
  \<^verbatim>\<open>Set\<close> does. The registry key \<^verbatim>\<open>`${synth.id}-${midiNote}`\<close> is a pair for the same
  reason.
\<close>

type_synonym Cell = "int \<times> int"

record session =
  patterns :: "Pattern list"
  sequence :: "PatternId list"
  selectedSequenceIndex :: nat
  isPlaying :: bool
  currentStep :: "int option" \<comment> \<open>\<open>None\<close> is NaN\<close>
  bpm :: jsnum
  stepsPerBeat :: jsnum
  key :: string
  scale :: Scale
  allowNonScaleNotes :: bool
  synths :: "Synth list"
  selectedSynthIndex :: nat
  isPainting :: bool
  paintTargetState :: bool
  selectedNotes :: "Cell list"
  selectionRectAnchor :: "Cell option"
  selectionRectExtent :: "Cell option"
  isSelectingRect :: bool
  isDragging :: bool
  dragStartCell :: "Cell option"
  dragStartNotes :: "Cell list"
  dragLastPositions :: "Cell list"
  dragOverwrittenNotes :: "Cell list"
  isCloning :: bool
  timeoutId :: "unit option" \<comment> \<open>the handle of the outstanding timeout, if any\<close>
  activeNotes :: "((SynthId \<times> int) \<times> ActiveNote) list"
  voiceCount :: nat \<comment> \<open>oscillators created so far\<close>

datatype error = TypeError

subsection \<open>Set and Map operations\<close>

definition setAdd :: "'a \<Rightarrow> 'a list \<Rightarrow> 'a list" where
  "setAdd x xs = (if x \<in> set xs then xs else xs @ [x])"

definition setDelete :: "'a \<Rightarrow> 'a list \<Rightarrow> 'a list" where
  "setDelete x xs = removeAll x xs"

definition newSet :: "'a list \<Rightarrow> 'a list" where
  "newSet xs = fold setAdd xs []"

fun mapSet :: "'k \<Rightarrow> 'v \<Rightarrow> ('k \<times> 'v) list \<Rightarrow> ('k \<times> 'v) list" where
  "mapSet k v [] = [(k, v)]"
| "mapSet k v (e # es) = (if fst e = k then (k, v) # es else e # mapSet k v es)"

fun mapDelete :: "'k \<Rightarrow> ('k \<times> 'v) list \<Rightarrow> ('k \<times> 'v) list" where
  "mapDelete k [] = []"
| "mapDelete k (e # es) = (if fst e = k then es else e # mapDelete k es)"

definition mapGet :: "('k \<times> 'v) list \<Rightarrow> 'k \<Rightarrow> 'v option" where
  "mapGet es k = map_option snd (find (\<lambda>e. fst e = k) es)"

subsection \<open>Derived state\<close>

definition selectedPatternId :: "session \<Rightarrow> PatternId" where
  "selectedPatternId s =
     (if selectedSequenceIndex s < length (sequence s)
      then sequence s ! selectedSequenceIndex s else MIN_PATTERN_ID)"

text \<open>\<^verbatim>\<open>getPatternAtStep(currentStep)\<close>: every comparison with NaN is false, so the scan ends with \<^verbatim>\<open>null\<close>.\<close>

definition getPatternAtCurrentStep :: "session \<Rightarrow> Location option" where
  "getPatternAtCurrentStep s =
     (case currentStep s of
        None \<Rightarrow> None
      | Some globalStep \<Rightarrow> getPatternAtStep (patterns s) (sequence s) globalStep)"

definition displayedPatternId :: "session \<Rightarrow> PatternId" where
  "displayedPatternId s =
     (if isPlaying s
      then (case getPatternAtCurrentStep s of
              Some loc \<Rightarrow> patternId loc
            | None \<Rightarrow> selectedPatternId s)
      else selectedPatternId s)"

definition getCurrentLayer :: "session \<Rightarrow> Layer option" where
  "getCurrentLayer s =
     (case findPattern (patterns s) (displayedPatternId s) of
        None \<Rightarrow> None
      | Some pattern \<Rightarrow>
          if selectedSynthIndex s \<ge> length (layers pattern) then None
          else Some (layers pattern ! selectedSynthIndex s))"

text \<open>
  The layer that \<^verbatim>\<open>getCurrentLayer\<close> returns is the array inside the pattern object that
  \<^verbatim>\<open>find\<close> returned, and the writers mutate it in place: the model stores the new layer
  back into the first pattern with the displayed id.
\<close>

fun updFirst :: "('a \<Rightarrow> bool) \<Rightarrow> ('a \<Rightarrow> 'a) \<Rightarrow> 'a list \<Rightarrow> 'a list" where
  "updFirst P f [] = []"
| "updFirst P f (x # xs) = (if P x then f x # xs else x # updFirst P f xs)"

definition setCurrentLayer :: "Layer \<Rightarrow> session \<Rightarrow> session" where
  "setCurrentLayer layer s =
     s\<lparr>patterns :=
         updFirst (\<lambda>p. pid p = displayedPatternId s)
           (\<lambda>p. p\<lparr>layers := (layers p)[selectedSynthIndex s := layer]\<rparr>) (patterns s)\<rparr>"

definition defaultSynths :: "Synth list" where
  "defaultSynths =
     [\<lparr> sid = 0, name = ''Synth 1'', oscType = square, volume = 3 / 10, attackMs = 10,
         releaseMs = 100, legatoSameNote = False \<rparr>,
      \<lparr> sid = 1, name = ''Synth 2'', oscType = sine, volume = 2 / 10, attackMs = 5,
         releaseMs = 80, legatoSameNote = False \<rparr>]"

text \<open>The state after the module has run: the declarations' initial values, then \<^verbatim>\<open>reset()\<close>.\<close>

definition reset :: session where
  "reset =
     \<lparr> patterns = map (\<lambda>i. createPattern (MIN_PATTERN_ID + i) (Finite 4) (Finite 4)) [0 ..< MAX_PATTERNS],
       sequence = [0],
       selectedSequenceIndex = 0,
       isPlaying = False,
       currentStep = Some 0,
       bpm = Finite 120,
       stepsPerBeat = Finite 4,
       key = ''C'',
       scale = NaturalMinor,
       allowNonScaleNotes = True,
       synths = defaultSynths,
       selectedSynthIndex = 0,
       isPainting = False,
       paintTargetState = True,
       selectedNotes = [],
       selectionRectAnchor = None,
       selectionRectExtent = None,
       isSelectingRect = False,
       isDragging = False,
       dragStartCell = None,
       dragStartNotes = [],
       dragLastPositions = [],
       dragOverwrittenNotes = [],
       isCloning = False,
       timeoutId = None,
       activeNotes = [],
       voiceCount = 0 \<rparr>"

section \<open>Note dispatch\<close>

text \<open>
  \<^verbatim>\<open>playNote\<close>. \<open>ctxTime\<close> is \<^verbatim>\<open>ctx.currentTime\<close>. The envelope ramps and the
  \<^verbatim>\<open>stop\<close> and \<^verbatim>\<open>disconnect\<close> calls act on the audio graph only and are left out; what
  remains is the registry and the creation of a voice.
\<close>

definition startVoice :: "int \<Rightarrow> rat \<Rightarrow> rat \<Rightarrow> Synth \<Rightarrow> session \<Rightarrow> session" where
  "startVoice midiNote time duration synth s =
     (let s' = s\<lparr>voiceCount := Suc (voiceCount s)\<rparr>
      in if legatoSameNote synth
         then s'\<lparr>activeNotes :=
                  mapSet (sid synth, midiNote) \<lparr> voice = voiceCount s, releaseAt = time + duration \<rparr>
                    (activeNotes s')\<rparr>
         else s')"

definition playNote :: "rat \<Rightarrow> int \<Rightarrow> rat \<Rightarrow> rat \<Rightarrow> Synth \<Rightarrow> session \<Rightarrow> session" where
  "playNote ctxTime midiNote time duration synth s =
     (if legatoSameNote synth
      then (case mapGet (activeNotes s) (sid synth, midiNote) of
              Some existing \<Rightarrow>
                if ctxTime < releaseAt existing - 2 / 100
                then s\<lparr>activeNotes :=
                        mapSet (sid synth, midiNote) (existing\<lparr>releaseAt := time + duration\<rparr>)
                          (activeNotes s)\<rparr>
                else startVoice midiNote time duration synth
                       (s\<lparr>activeNotes := mapDelete (sid synth, midiNote) (activeNotes s)\<rparr>)
            | None \<Rightarrow> startVoice midiNote time duration synth s)
      else startVoice midiNote time duration synth s)"

definition stepDurationSeconds :: "session \<Rightarrow> rat" where
  "stepDurationSeconds s =
     (let numericBpm = clampBpm (bpm s);
          steps = clampStepsPerBeat (stepsPerBeat s)
      in 60 / (numericBpm * of_nat steps))"

text \<open>The loop over \<^verbatim>\<open>pitches.entries()\<close> of one step.\<close>

fun playPitches :: "rat \<Rightarrow> rat \<Rightarrow> Synth \<Rightarrow> int \<Rightarrow> bool list \<Rightarrow> session \<Rightarrow> session" where
  "playPitches time duration synth pitchIndex [] s = s"
| "playPitches time duration synth pitchIndex (active # rest) s =
     playPitches time duration synth (pitchIndex + 1) rest
       (if active
        then playNote time (BASE_MIDI_NOTE + (int NUM_PITCHES - 1 - pitchIndex)) time duration synth s
        else s)"

text \<open>
  The loop over the synths of \<^verbatim>\<open>playStep\<close>; \<open>rest\<close> holds the synths from
  \<open>synthIndex\<close> on. With a negative \<^verbatim>\<open>stepInPattern\<close> the element \<^verbatim>\<open>layer[stepInPattern]\<close>
  is \<^verbatim>\<open>undefined\<close> and reading its \<^verbatim>\<open>pitches\<close> throws.
\<close>

fun playSynths ::
  "rat \<Rightarrow> rat \<Rightarrow> Pattern \<Rightarrow> int \<Rightarrow> nat \<Rightarrow> Synth list \<Rightarrow> session \<Rightarrow> error + session" where
  "playSynths time stepDur pattern stepInPat synthIndex [] s = Inr s"
| "playSynths time stepDur pattern stepInPat synthIndex (synth # rest) s =
     (if synthIndex \<ge> length (layers pattern) \<or>
         stepInPat \<ge> int (length (layers pattern ! synthIndex))
      then playSynths time stepDur pattern stepInPat (Suc synthIndex) rest s
      else if stepInPat < 0 then Inl TypeError
      else
        (let layer = layers pattern ! synthIndex;
             duration = (if legatoSameNote synth then stepDur * 2 else stepDur * (9 / 10));
             pitches = layer ! nat stepInPat
         in playSynths time stepDur pattern stepInPat (Suc synthIndex) rest
              (playPitches time duration synth 0 pitches s)))"

definition playStep :: "rat \<Rightarrow> int option \<Rightarrow> session \<Rightarrow> error + session" where
  "playStep time step s =
     (let stepDur = stepDurationSeconds s
      in case (case step of None \<Rightarrow> None
               | Some globalStep \<Rightarrow> getPatternAtStep (patterns s) (sequence s) globalStep) of
           None \<Rightarrow> Inr s
         | Some loc \<Rightarrow>
             (case findPattern (patterns s) (patternId loc) of
                None \<Rightarrow> Inr s
              | Some pattern \<Rightarrow>
                  playSynths time stepDur pattern (stepInPattern loc) 0 (synths s) s))"

text \<open>
  A sequence of calls of \<^verbatim>\<open>playNote\<close>, each with the context time, the MIDI note, the
  start time, the duration and the synth it is called with.
\<close>

fun dispatches :: "(rat \<times> int \<times> rat \<times> rat \<times> Synth) list \<Rightarrow> session \<Rightarrow> session" where
  "dispatches [] s = s"
| "dispatches ((ctxTime, midiNote, time, duration, synth) # rest) s =
     dispatches rest (playNote ctxTime midiNote time duration synth s)"

text \<open>The session with the registry and the voice counter blanked: what dispatch leaves alone.\<close>

definition withoutAudio :: "session \<Rightarrow> session" where
  "withoutAudio s = s\<lparr>activeNotes := [], voiceCount := 0\<rparr>"

section \<open>Transport\<close>

text \<open>
  The callback of the step timer. \<^verbatim>\<open>%\<close> with a zero divisor gives NaN, and NaN stays
  NaN under \<^verbatim>\<open>+ 1\<close> and \<^verbatim>\<open>%\<close>. When \<^verbatim>\<open>playStep\<close> throws, the assignment to
  \<^verbatim>\<open>currentStep\<close> has happened and the timer is not armed again.
\<close>

definition advanceStep :: "int option \<Rightarrow> nat \<Rightarrow> int option" where
  "advanceStep step stepsInLoop =
     (case step of
        None \<Rightarrow> None
      | Some c \<Rightarrow> if stepsInLoop = 0 then None else Some (js_rem (c + 1) (int stepsInLoop)))"

definition startPlayingStepsUsingTimeout :: "rat \<Rightarrow> session \<Rightarrow> error + session" where
  "startPlayingStepsUsingTimeout time s =
     (if \<not> isPlaying s then Inr s
      else
        (let stepsInLoop = totalSteps (patterns s) (sequence s);
             s1 = s\<lparr>currentStep := advanceStep (currentStep s) stepsInLoop\<rparr>
         in case playStep time (currentStep s1) s1 of
              Inl e \<Rightarrow> Inl e
            | Inr s2 \<Rightarrow> Inr (s2\<lparr>timeoutId := Some ()\<rparr>)))"

text \<open>
  \<^verbatim>\<open>start\<close>, with the audio context running, so that the function does not suspend at
  its \<^verbatim>\<open>await\<close> and runs to its end within one event.
\<close>

definition start :: "rat \<Rightarrow> session \<Rightarrow> error + session" where
  "start time s =
     (if isPlaying s then Inr s
      else
        (let s1 = s\<lparr>isPlaying := True\<rparr>;
             s2 = s1\<lparr>currentStep :=
                      Some (int (getStepForSequenceIndex (patterns s1) (sequence s1) (selectedSequenceIndex s1)))\<rparr>
         in case playStep time (currentStep s2) s2 of
              Inl e \<Rightarrow> Inl e
            | Inr s3 \<Rightarrow> Inr (s3\<lparr>timeoutId := Some ()\<rparr>)))"

definition stop :: "session \<Rightarrow> session" where
  "stop s =
     (if \<not> isPlaying s then s
      else s\<lparr>isPlaying := False, timeoutId := None, activeNotes := []\<rparr>)"

text \<open>Timer firings one after the other, each at its own time; the first error ends the run.\<close>

fun ticks :: "rat list \<Rightarrow> session \<Rightarrow> error + session" where
  "ticks [] s = Inr s"
| "ticks (time # later) s =
     (case startPlayingStepsUsingTimeout time s of
        Inl e \<Rightarrow> Inl e
      | Inr s' \<Rightarrow> ticks later s')"

section \<open>Grid editing\<close>

text \<open>
  The assignment \<^verbatim>\<open>pitches[i] = v\<close>. Within the array it replaces the element. At or
  beyond the length the array grows to \<open>i + 1\<close> elements, the new ones before \<open>i\<close> being
  holes; a hole reads as \<^verbatim>\<open>undefined\<close>, which every reader treats as no note, so the
  model fills with \<open>False\<close>. A negative \<open>i\<close> names a property of the array object and not
  an element: the elements stay as they are.
\<close>

definition js_set :: "bool list \<Rightarrow> int \<Rightarrow> bool \<Rightarrow> bool list" where
  "js_set xs i v =
     (if i < 0 then xs
      else if nat i < length xs then xs[nat i := v]
      else xs @ replicate (nat i - length xs) False @ [v])"

text \<open>The truth value of \<^verbatim>\<open>layer[step]?.pitches[pitch]\<close>.\<close>

definition hasNoteAt :: "Layer \<Rightarrow> int \<Rightarrow> int \<Rightarrow> bool" where
  "hasNoteAt layer step pitch =
     (0 \<le> step \<and> nat step < length layer \<and> 0 \<le> pitch \<and>
      nat pitch < length (layer ! nat step) \<and> layer ! nat step ! nat pitch)"

definition cellActive :: "session \<Rightarrow> int \<Rightarrow> int \<Rightarrow> bool" where
  "cellActive s step pitch =
     (case getCurrentLayer s of None \<Rightarrow> False | Some layer \<Rightarrow> hasNoteAt layer step pitch)"

text \<open>
  \<^verbatim>\<open>setCell\<close>. Its guard lets a negative \<^verbatim>\<open>step\<close> through; \<^verbatim>\<open>layer[step]\<close> is then
  \<^verbatim>\<open>undefined\<close> and the assignment throws.
\<close>

definition setCell :: "int \<Rightarrow> int \<Rightarrow> bool \<Rightarrow> session \<Rightarrow> error + session" where
  "setCell step pitchIndex state s =
     (if \<not> allowNonScaleNotes s \<and> \<not> isInScale (key s) (scale s) pitchIndex then Inr s
      else case getCurrentLayer s of
             None \<Rightarrow> Inr s
           | Some layer \<Rightarrow>
               if step \<ge> int (length layer) then Inr s
               else if step < 0 then Inl TypeError
               else Inr (setCurrentLayer
                           (layer[nat step := js_set (layer ! nat step) pitchIndex state]) s))"

definition isNoteSelected :: "session \<Rightarrow> int \<Rightarrow> int \<Rightarrow> bool" where
  "isNoteSelected s step pitch = ((step, pitch) \<in> set (selectedNotes s))"

record Rect =
  minStep :: int
  maxStep :: int
  minPitch :: int
  maxPitch :: int

definition getSelectionRect :: "session \<Rightarrow> Rect option" where
  "getSelectionRect s =
     (case (selectionRectAnchor s, selectionRectExtent s) of
        (Some (aStep, aPitch), Some (eStep, ePitch)) \<Rightarrow>
          Some \<lparr> minStep = min aStep eStep, maxStep = max aStep eStep,
                 minPitch = min aPitch ePitch, maxPitch = max aPitch ePitch \<rparr>
      | _ \<Rightarrow> None)"

text \<open>The two nested loops of \<^verbatim>\<open>addNotesInRectToSelection\<close>, over the steps and the pitches of the rectangle.\<close>

definition addNotesInRect_pitches :: "Layer \<Rightarrow> int \<Rightarrow> int list \<Rightarrow> Cell list \<Rightarrow> Cell list" where
  "addNotesInRect_pitches layer st ps next =
     fold (\<lambda>p acc. if hasNoteAt layer st p then setAdd (st, p) acc else acc) ps next"

definition addNotesInRectToSelection :: "Rect \<Rightarrow> session \<Rightarrow> session" where
  "addNotesInRectToSelection rect s =
     (case getCurrentLayer s of
        None \<Rightarrow> s
      | Some layer \<Rightarrow>
          s\<lparr>selectedNotes :=
              fold (\<lambda>st acc. addNotesInRect_pitches layer st [minPitch rect .. maxPitch rect] acc)
                [minStep rect .. maxStep rect] (selectedNotes s)\<rparr>)"

text \<open>
  \<^verbatim>\<open>getSelectedNotesArray\<close> splits each key at every \<^verbatim>\<open>-\<close> and converts the first two
  pieces to numbers. The minus sign of a negative coordinate is such a \<^verbatim>\<open>-\<close> too, and the
  empty piece before it converts to 0: a key of non-negative coordinates comes back as it
  was, a key with a negative step \<open>- n\<close> comes back as \<open>(0, n)\<close>, and a key with a negative
  pitch comes back with pitch 0.
\<close>

definition splitKey :: "Cell \<Rightarrow> Cell" where
  "splitKey c =
     (case c of (step, pitch) \<Rightarrow>
        if step < 0 then (0, - step) else if pitch < 0 then (step, 0) else (step, pitch))"

definition getSelectedNotesArray :: "session \<Rightarrow> Cell list" where
  "getSelectedNotesArray s = map splitKey (selectedNotes s)"

text \<open>The loops of \<^verbatim>\<open>clearNotesAt\<close> and \<^verbatim>\<open>setNotesAt\<close> over the positions, on the layer they mutate.\<close>

fun clearNotesAt_loop :: "Cell list \<Rightarrow> Layer \<Rightarrow> Layer" where
  "clearNotesAt_loop [] layer = layer"
| "clearNotesAt_loop ((step, pitch) # rest) layer =
     clearNotesAt_loop rest
       (if 0 \<le> step \<and> nat step < length layer
        then layer[nat step := js_set (layer ! nat step) pitch False]
        else layer)"

definition clearNotesAt :: "Cell list \<Rightarrow> session \<Rightarrow> session" where
  "clearNotesAt positions s =
     (case getCurrentLayer s of
        None \<Rightarrow> s
      | Some layer \<Rightarrow> setCurrentLayer (clearNotesAt_loop positions layer) s)"

fun setNotesAt_loop :: "Cell list \<Rightarrow> Layer \<Rightarrow> Layer" where
  "setNotesAt_loop [] layer = layer"
| "setNotesAt_loop ((step, pitch) # rest) layer =
     setNotesAt_loop rest
       (if step \<ge> 0 \<and> step < int (length layer) \<and> pitch \<ge> 0 \<and> pitch < int NUM_PITCHES
        then layer[nat step := js_set (layer ! nat step) pitch True]
        else layer)"

definition setNotesAt :: "Cell list \<Rightarrow> session \<Rightarrow> session" where
  "setNotesAt positions s =
     (case getCurrentLayer s of
        None \<Rightarrow> s
      | Some layer \<Rightarrow> setCurrentLayer (setNotesAt_loop positions layer) s)"

definition inGrid :: "nat \<Rightarrow> Cell \<Rightarrow> bool" where
  "inGrid stepsLen c =
     (case c of (step, pitch) \<Rightarrow>
        step \<ge> 0 \<and> step < int stepsLen \<and> pitch \<ge> 0 \<and> pitch < int NUM_PITCHES)"

definition translate :: "int \<Rightarrow> int \<Rightarrow> Cell \<Rightarrow> Cell" where
  "translate deltaStep deltaPitch c = (case c of (step, pitch) \<Rightarrow> (step + deltaStep, pitch + deltaPitch))"

definition moveSelectedNotes :: "int \<Rightarrow> int \<Rightarrow> session \<Rightarrow> session" where
  "moveSelectedNotes deltaStep deltaPitch s =
     (let notes = getSelectedNotesArray s
      in case getCurrentLayer s of
           None \<Rightarrow> s
         | Some layer \<Rightarrow>
             if notes = [] then s
             else
               (let newPositions = map (translate deltaStep deltaPitch) notes;
                    inBounds = list_all (inGrid (length layer)) newPositions
                in if \<not> inBounds then s
                   else (setNotesAt newPositions (clearNotesAt notes s))
                          \<lparr>selectedNotes := newSet newPositions\<rparr>))"

subsection \<open>Pointer events\<close>

record MouseEvent =
  metaKey :: bool
  ctrlKey :: bool
  shiftKey :: bool
  altKey :: bool

record CellOpts =
  hasNote :: bool
  noteSelected :: bool
  isDisabled :: bool

definition handleCellMousedown ::
  "int \<Rightarrow> int \<Rightarrow> MouseEvent \<Rightarrow> CellOpts \<Rightarrow> session \<Rightarrow> error + session" where
  "handleCellMousedown stepIndex pitchIndex e opts s =
     (if isDisabled opts then Inr s
      else if metaKey e \<or> ctrlKey e
      then Inr (s\<lparr>selectionRectAnchor := Some (stepIndex, pitchIndex),
                  selectionRectExtent := Some (stepIndex, pitchIndex),
                  isSelectingRect := True\<rparr>)
      else if shiftKey e \<and> hasNote opts
      then Inr (s\<lparr>selectedNotes :=
                   (if (stepIndex, pitchIndex) \<in> set (selectedNotes s)
                    then setDelete (stepIndex, pitchIndex) (selectedNotes s)
                    else setAdd (stepIndex, pitchIndex) (selectedNotes s))\<rparr>)
      else if noteSelected opts \<and> length (selectedNotes s) > 0
      then Inr (s\<lparr>selectedNotes := [],
                  dragStartNotes := getSelectedNotesArray s,
                  dragStartCell := Some (stepIndex, pitchIndex),
                  dragLastPositions := [],
                  dragOverwrittenNotes := [],
                  isCloning := altKey e,
                  isDragging := True\<rparr>)
      else
        (let s1 = s\<lparr>selectedNotes := [], paintTargetState := \<not> hasNote opts\<rparr>
         in case setCell stepIndex pitchIndex (paintTargetState s1) s1 of
              Inl err \<Rightarrow> Inl err
            | Inr s2 \<Rightarrow> Inr (s2\<lparr>isPainting := True\<rparr>)))"

text \<open>
  The dragging branch of \<^verbatim>\<open>handleCellMouseenter\<close> holds the array that
  \<^verbatim>\<open>getCurrentLayer\<close> returned in \<^verbatim>\<open>layer\<close>; \<^verbatim>\<open>clearNotesAt\<close> and \<^verbatim>\<open>setNotesAt\<close> mutate
  that same array, so the overwritten notes are read from the layer as the two calls
  before have left it. Its length \<^verbatim>\<open>stepsLen\<close> is the same before and after.
\<close>

definition handleCellMouseenter :: "int \<Rightarrow> int \<Rightarrow> bool \<Rightarrow> session \<Rightarrow> error + session" where
  "handleCellMouseenter stepIndex pitchIndex disabled s =
     (if isSelectingRect s
      then Inr (s\<lparr>selectionRectExtent := Some (stepIndex, pitchIndex)\<rparr>)
      else if isDragging s \<and> dragStartCell s \<noteq> None
      then
        (case (dragStartCell s, getCurrentLayer s) of
           (Some (startStep, startPitch), Some layer) \<Rightarrow>
             (let deltaStep = stepIndex - startStep;
                  deltaPitch = pitchIndex - startPitch;
                  stepsLen = length layer;
                  s1 = (if isCloning s then clearNotesAt (dragLastPositions s) s
                        else if length (dragLastPositions s) > 0
                        then clearNotesAt (dragLastPositions s) s
                        else clearNotesAt (dragStartNotes s) s);
                  s2 = setNotesAt (dragOverwrittenNotes s1) s1;
                  newLastPositions =
                    filter (inGrid stepsLen) (map (translate deltaStep deltaPitch) (dragStartNotes s2));
                  newOverwrittenNotes =
                    filter (\<lambda>p. cellActive s2 (fst p) (snd p)) newLastPositions;
                  s3 = setNotesAt newLastPositions s2
              in Inr (s3\<lparr>dragLastPositions := newLastPositions,
                          dragOverwrittenNotes := newOverwrittenNotes\<rparr>))
         | _ \<Rightarrow> Inr s)
      else if isPainting s \<and> \<not> disabled
      then setCell stepIndex pitchIndex (paintTargetState s) s
      else Inr s)"

definition handleMouseup :: "session \<Rightarrow> session" where
  "handleMouseup s =
     (let s1 = (if isSelectingRect s
                then (case getSelectionRect s of
                        Some rect \<Rightarrow> addNotesInRectToSelection rect s
                      | None \<Rightarrow> s)
                     \<lparr>selectionRectAnchor := None, selectionRectExtent := None,
                      isSelectingRect := False\<rparr>
                else s)
      in s1\<lparr>isPainting := False, isDragging := False, isCloning := False, dragStartCell := None\<rparr>)"

text \<open>
  What the template passes to \<^verbatim>\<open>handleCellMousedown\<close> for the cell it has rendered at
  \<open>(stepIndex, pitchIndex)\<close> of the current layer.
\<close>

definition cellOpts :: "session \<Rightarrow> int \<Rightarrow> int \<Rightarrow> CellOpts" where
  "cellOpts s stepIndex pitchIndex =
     \<lparr> hasNote = cellActive s stepIndex pitchIndex,
       noteSelected = isNoteSelected s stepIndex pitchIndex,
       isDisabled = (\<not> allowNonScaleNotes s \<and> \<not> isInScale (key s) (scale s) pitchIndex) \<rparr>"

definition mousedownOnCell :: "int \<Rightarrow> int \<Rightarrow> MouseEvent \<Rightarrow> session \<Rightarrow> error + session" where
  "mousedownOnCell stepIndex pitchIndex e s =
     handleCellMousedown stepIndex pitchIndex e (cellOpts s stepIndex pitchIndex) s"

definition noModifiers :: MouseEvent where
  "noModifiers = \<lparr> metaKey = False, ctrlKey = False, shiftKey = False, altKey = False \<rparr>"

subsection \<open>Keyboard and buttons\<close>

datatype Key =
    KeyDelete | KeyBackspace | KeyEscape | ArrowUp | ArrowDown | ArrowLeft | ArrowRight
  | KeySpace | KeyOther

fun arrowDelta :: "Key \<Rightarrow> (int \<times> int) option" where
  "arrowDelta ArrowUp = Some (0, - 1)"
| "arrowDelta ArrowDown = Some (0, 1)"
| "arrowDelta ArrowLeft = Some (- 1, 0)"
| "arrowDelta ArrowRight = Some (1, 0)"
| "arrowDelta _ = None"

text \<open>The window's \<^verbatim>\<open>keydown\<close> handler, for an event whose target is not a text input.\<close>

definition handleKeydown :: "rat \<Rightarrow> Key \<Rightarrow> session \<Rightarrow> error + session" where
  "handleKeydown time k s =
     (if k = KeyDelete \<or> k = KeyBackspace
      then (if length (selectedNotes s) > 0
            then Inr ((clearNotesAt (getSelectedNotesArray s) s)\<lparr>selectedNotes := []\<rparr>)
            else Inr s)
      else if k = KeyEscape
      then (if length (selectedNotes s) > 0 \<or> isSelectingRect s
            then Inr (s\<lparr>selectedNotes := [], selectionRectAnchor := None,
                        selectionRectExtent := None, isSelectingRect := False\<rparr>)
            else Inr s)
      else if length (selectedNotes s) > 0 \<and> arrowDelta k \<noteq> None
      then (case arrowDelta k of
              Some (deltaStep, deltaPitch) \<Rightarrow> Inr (moveSelectedNotes deltaStep deltaPitch s)
            | None \<Rightarrow> Inr s)
      else if k = KeySpace
      then (if isPlaying s then Inr (stop s) else start time s)
      else Inr s)"

definition clearPattern :: "session \<Rightarrow> session" where
  "clearPattern s =
     (case findPattern (patterns s) (displayedPatternId s) of
        None \<Rightarrow> s
      | Some pattern \<Rightarrow>
          s\<lparr>patterns :=
              updFirst (\<lambda>p. pid p = displayedPatternId s)
                (\<lambda>p. createPattern (displayedPatternId s) (beatsPerMeasure pattern)
                        (patStepsPerBeat pattern))
                (patterns s)\<rparr>)"

text \<open>The click handlers of a synth button and of a sequence cell.\<close>

definition selectSynth :: "nat \<Rightarrow> session \<Rightarrow> session" where
  "selectSynth idx s = s\<lparr>selectedSynthIndex := idx, selectedNotes := []\<rparr>"

definition selectSequenceCell :: "nat \<Rightarrow> session \<Rightarrow> session" where
  "selectSequenceCell seqIndex s = s\<lparr>selectedSequenceIndex := seqIndex\<rparr>"

text \<open>
  \<^verbatim>\<open>cyclePatternAtPosition\<close>, called by the two arrows of a sequence cell. Its parameter
  \<^verbatim>\<open>direction\<close> has the type \<^verbatim>\<open>1 | -1\<close>, so \<^verbatim>\<open>%\<close> is applied to a non-negative number.
  Then the click handler of the \<^verbatim>\<open>+\<close> button, which the template renders while the
  sequence has fewer than \<^verbatim>\<open>MAX_MEASURES\<close> entries.
\<close>

datatype Direction = Plus1 | Minus1

fun directionValue :: "Direction \<Rightarrow> int" where
  "directionValue Plus1 = 1"
| "directionValue Minus1 = - 1"

definition cyclePatternAtPosition :: "nat \<Rightarrow> Direction \<Rightarrow> session \<Rightarrow> session" where
  "cyclePatternAtPosition seqIndex direction s =
     (if seqIndex \<ge> length (sequence s) then s
      else
        (let currentId = sequence s ! seqIndex;
             nextId = nat (js_rem (int currentId - int MIN_PATTERN_ID + directionValue direction +
                                   int MAX_PATTERNS)
                             (int MAX_PATTERNS)) + MIN_PATTERN_ID
         in s\<lparr>sequence := (sequence s)[seqIndex := nextId], selectedSequenceIndex := seqIndex\<rparr>))"

definition addToSequence :: "session \<Rightarrow> session" where
  "addToSequence s =
     (if length (sequence s) < MAX_MEASURES
      then s\<lparr>sequence := sequence s @ [selectedPatternId s]\<rparr>
      else s)"

subsection \<open>Input events\<close>

text \<open>
  The events the page reacts to, with the arguments its template and its window handlers
  pass on: a pointer-down and a pointer-enter on a rendered cell, the pointer-up on the
  window, a key on the window, the Clear button, a synth button, a sequence cell, the
  checkbox bound to \<^verbatim>\<open>allowNonScaleNotes\<close>, the firing of the step timer, the \<^verbatim>\<open>+\<close>
  button of the sequence and an arrow of a sequence cell. \<open>run\<close> handles a list of them
  in order and stops at the first error.
\<close>

datatype Event =
    PointerDown int int MouseEvent
  | PointerEnter int int
  | PointerUp
  | KeyDown Key
  | ClearButton
  | SynthButton nat
  | SequenceCell nat
  | AllowNonScaleNotes bool
  | TimerTick
  | AddButton
  | CycleButton nat Direction

fun fire :: "rat \<Rightarrow> Event \<Rightarrow> session \<Rightarrow> error + session" where
  "fire time (PointerDown stepIndex pitchIndex e) s = mousedownOnCell stepIndex pitchIndex e s"
| "fire time (PointerEnter stepIndex pitchIndex) s =
     handleCellMouseenter stepIndex pitchIndex (isDisabled (cellOpts s stepIndex pitchIndex)) s"
| "fire time PointerUp s = Inr (handleMouseup s)"
| "fire time (KeyDown k) s = handleKeydown time k s"
| "fire time ClearButton s = Inr (clearPattern s)"
| "fire time (SynthButton idx) s = Inr (selectSynth idx s)"
| "fire time (SequenceCell seqIndex) s = Inr (selectSequenceCell seqIndex s)"
| "fire time (AllowNonScaleNotes b) s = Inr (s\<lparr>allowNonScaleNotes := b\<rparr>)"
| "fire time TimerTick s = startPlayingStepsUsingTimeout time s"
| "fire time AddButton s = Inr (addToSequence s)"
| "fire time (CycleButton seqIndex direction) s = Inr (cyclePatternAtPosition seqIndex direction s)"

fun run :: "rat \<Rightarrow> Event list \<Rightarrow> session \<Rightarrow> error + session" where
  "run time [] s = Inr s"
| "run time (ev # rest) s =
     (case fire time ev s of Inl err \<Rightarrow> Inl err | Inr s' \<Rightarrow> run time rest s')"

definition shiftHeld :: MouseEvent where
  "shiftHeld = noModifiers\<lparr>shiftKey := True\<rparr>"

section \<open>Predicates used in the proofs\<close>

text \<open>Every step of the layer has its 72 pitches, as every step that is created has.\<close>

definition wfLayer :: "Layer \<Rightarrow> bool" where
  "wfLayer layer = (\<forall>st \<in> set layer. length st = NUM_PITCHES)"

text \<open>No pointer gesture is under way.\<close>

definition idle :: "session \<Rightarrow> bool" where
  "idle s = (\<not> isSelectingRect s \<and> \<not> isPainting s \<and> \<not> isDragging s \<and> \<not> isCloning s \<and>
             dragStartCell s = None)"




section \<open>Concrete sessions\<close>

text \<open>The first default synth with legato switched on.\<close>

definition legatoSynth :: Synth where
  "legatoSynth = (defaultSynths ! 0)\<lparr>legatoSameNote := True\<rparr>"

text \<open>A session playing the last step of a sequence of two patterns.\<close>

definition playingLastStep :: session where
  "playingLastStep = reset\<lparr>sequence := [0, 1], selectedSequenceIndex := 1, isPlaying := True,
     currentStep := Some 31\<rparr>"

text \<open>The initial session after the note at step 0, pitch 0 has been painted and selected.\<close>

definition oneNoteLayer :: Layer where
  "oneNoteLayer = (createStepLayer 16)[0 := js_set emptyStep 0 True]"

definition oneNoteSelected :: session where
  "oneNoteSelected = (setCurrentLayer oneNoteLayer reset)\<lparr>selectedNotes := [(0, 0)]\<rparr>"

text \<open>
  The initial session after notes have been painted at pitch 0 (a B, out of scale in C
  natural minor) of steps 0 and 1, the first has been selected, and the lock has been
  switched on.
\<close>

definition twoNoteLayer :: Layer where
  "twoNoteLayer = setNotesAt_loop [(0, 0), (1, 0)] (createStepLayer 16)"

definition lockedOverlap :: session where
  "lockedOverlap =
     (setCurrentLayer twoNoteLayer reset)\<lparr>selectedNotes := [(0, 0)], allowNonScaleNotes := False\<rparr>"

text \<open>
  The initial session after notes have been painted at pitches 71 (C) and 69 (D) of
  step 0, both have been selected, and the lock has been switched on.
\<close>

definition chordLayer :: Layer where
  "chordLayer = setNotesAt_loop [(0, 71), (0, 69)] (createStepLayer 16)"

definition lockedChord :: session where
  "lockedChord =
     (setCurrentLayer chordLayer reset)
       \<lparr>selectedNotes := [(0, 71), (0, 69)], allowNonScaleNotes := False\<rparr>"



section \<open>Timeline lemmas\<close>

lemma getStepForSequenceIndex_loop_eq:
  "getStepForSequenceIndex_loop ps seqIndex i sm rest =
     sm + sum_list (map (stepsPerPattern ps) (take (seqIndex - i) rest))"
proof (induction rest arbitrary: i sm)
  case Nil
  then show ?case by simp
next
  case (Cons x rest)
  show ?case
  proof (cases "i < seqIndex")
    case True
    then have "seqIndex - i = Suc (seqIndex - Suc i)" by simp
    with True Cons.IH [of "Suc i" "sm + stepsPerPattern ps x"] show ?thesis
      by simp
  next
    case False
    then show ?thesis by simp
  qed
qed

lemma getStepForSequenceIndex_eq:
  "getStepForSequenceIndex ps sq seqIndex =
     sum_list (map (stepsPerPattern ps) (take seqIndex sq))"
  by (simp add: getStepForSequenceIndex_def getStepForSequenceIndex_loop_eq)

lemma totalSteps_foldl:
  "foldl (\<lambda>sm patternId. sm + stepsPerPattern ps patternId) a xs =
     a + sum_list (map (stepsPerPattern ps) xs)"
  by (induction xs arbitrary: a) simp_all

lemma totalSteps_eq:
  "totalSteps ps sq = sum_list (map (stepsPerPattern ps) sq)"
  by (simp add: totalSteps_def totalSteps_foldl)

lemma getPatternAtStep_loop_None:
  "int (acc + sum_list (map (stepsPerPattern ps) rest)) \<le> globalStep \<Longrightarrow>
     getPatternAtStep_loop ps globalStep i acc rest = None"
proof (induction rest arbitrary: i acc)
  case Nil
  then show ?case by simp
next
  case (Cons x rest)
  from Cons.prems have "\<not> globalStep < int (acc + stepsPerPattern ps x)" by simp
  moreover from Cons.prems
  have "getPatternAtStep_loop ps globalStep (Suc i) (acc + stepsPerPattern ps x) rest = None"
    by (intro Cons.IH) (simp add: add.assoc)
  ultimately show ?case by (simp add: Let_def)
qed

lemma getPatternAtStep_loop_Some:
  "int acc \<le> globalStep \<Longrightarrow>
   globalStep < int (acc + sum_list (map (stepsPerPattern ps) rest)) \<Longrightarrow>
   \<exists>k < length rest.
     getPatternAtStep_loop ps globalStep i acc rest =
       Some \<lparr> patternIndex = i + k,
              stepInPattern = globalStep - int (acc + sum_list (map (stepsPerPattern ps) (take k rest))),
              patternId = rest ! k \<rparr> \<and>
     int (acc + sum_list (map (stepsPerPattern ps) (take k rest))) \<le> globalStep \<and>
     globalStep < int (acc + sum_list (map (stepsPerPattern ps) (take (Suc k) rest)))"
proof (induction rest arbitrary: i acc)
  case Nil
  then show ?case by simp
next
  case (Cons x rest)
  show ?case
  proof (cases "globalStep < int (acc + stepsPerPattern ps x)")
    case True
    then have "getPatternAtStep_loop ps globalStep i acc (x # rest) =
        Some \<lparr> patternIndex = i + 0,
               stepInPattern = globalStep - int (acc + sum_list (map (stepsPerPattern ps) (take 0 (x # rest)))),
               patternId = (x # rest) ! 0 \<rparr>"
      by (simp add: Let_def)
    with True Cons.prems(1) show ?thesis
      by (intro exI [of _ 0]) simp
  next
    case False
    then have lo: "int (acc + stepsPerPattern ps x) \<le> globalStep" by simp
    from Cons.prems(2)
    have "globalStep < int ((acc + stepsPerPattern ps x) + sum_list (map (stepsPerPattern ps) rest))"
      by (simp add: add.assoc)
    from Cons.IH [OF lo this, of "Suc i"] obtain k where k: "k < length rest"
      and r: "getPatternAtStep_loop ps globalStep (Suc i) (acc + stepsPerPattern ps x) rest =
        Some \<lparr> patternIndex = Suc i + k,
               stepInPattern = globalStep - int ((acc + stepsPerPattern ps x) + sum_list (map (stepsPerPattern ps) (take k rest))),
               patternId = rest ! k \<rparr>"
      and l: "int ((acc + stepsPerPattern ps x) + sum_list (map (stepsPerPattern ps) (take k rest))) \<le> globalStep"
      and u: "globalStep < int ((acc + stepsPerPattern ps x) + sum_list (map (stepsPerPattern ps) (take (Suc k) rest)))"
      by blast
    from False r have "getPatternAtStep_loop ps globalStep i acc (x # rest) =
        Some \<lparr> patternIndex = i + Suc k,
               stepInPattern = globalStep - int (acc + sum_list (map (stepsPerPattern ps) (take (Suc k) (x # rest)))),
               patternId = (x # rest) ! Suc k \<rparr>"
      by (simp add: Let_def add.assoc)
    with k u l show ?thesis
      by (intro exI [of _ "Suc k"]) (simp add: add.assoc)
  qed
qed

lemma getPatternAtStep_nonneg:
  assumes "getPatternAtStep ps sq g = Some loc" and "0 \<le> g"
  shows "0 \<le> stepInPattern loc"
proof -
  have "g < int (0 + sum_list (map (stepsPerPattern ps) sq))"
  proof (rule ccontr)
    assume "\<not> g < int (0 + sum_list (map (stepsPerPattern ps) sq))"
    then have "getPatternAtStep_loop ps g 0 0 sq = None"
      by (intro getPatternAtStep_loop_None) simp
    with assms(1) show False by (simp add: getPatternAtStep_def)
  qed
  moreover from assms(2) have "int 0 \<le> g" by simp
  ultimately obtain k where
      "getPatternAtStep_loop ps g 0 0 sq =
         Some \<lparr> patternIndex = 0 + k,
                stepInPattern = g - int (0 + sum_list (map (stepsPerPattern ps) (take k sq))),
                patternId = sq ! k \<rparr>"
      and "int (0 + sum_list (map (stepsPerPattern ps) (take k sq))) \<le> g"
    using getPatternAtStep_loop_Some [of 0 g ps sq 0] by blast
  with assms(1) show ?thesis by (auto simp: getPatternAtStep_def)
qed

lemma clampBeatsPerMeasure_pos: "1 \<le> clampBeatsPerMeasure v"
proof (cases v)
  case (Finite x)
  have "1 \<le> x \<Longrightarrow> 1 \<le> nat \<lfloor>x\<rfloor>" by linarith
  then show ?thesis
    by (simp add: Finite js_trunc_def MIN_BEATS_PER_MEASURE_def MAX_BEATS_PER_MEASURE_def not_less)
next
  case NonFinite
  then show ?thesis by (simp add: MIN_BEATS_PER_MEASURE_def)
qed

lemma clampStepsPerBeat_pos: "1 \<le> clampStepsPerBeat v"
proof (cases v)
  case (Finite x)
  have "1 \<le> x \<Longrightarrow> 1 \<le> nat \<lfloor>x\<rfloor>" by linarith
  then show ?thesis
    by (simp add: Finite js_trunc_def MIN_STEPS_PER_BEAT_def MAX_STEPS_PER_BEAT_def not_less)
next
  case NonFinite
  then show ?thesis by (simp add: MIN_STEPS_PER_BEAT_def)
qed

lemma stepsPerPattern_pos: "0 < stepsPerPattern ps x"
proof (cases "findPattern ps x")
  case None
  then show ?thesis by (simp add: stepsPerPattern_def)
next
  case (Some p)
  from clampBeatsPerMeasure_pos [of "beatsPerMeasure p"] clampStepsPerBeat_pos [of "patStepsPerBeat p"]
  have "0 < clampBeatsPerMeasure (beatsPerMeasure p) * clampStepsPerBeat (patStepsPerBeat p)"
    by simp
  with Some show ?thesis by (simp add: stepsPerPattern_def)
qed

lemma totalSteps_pos: "sq \<noteq> [] \<Longrightarrow> 0 < totalSteps ps sq"
  using stepsPerPattern_pos [of ps "hd sq"]
  by (cases sq) (simp_all add: totalSteps_eq)

section \<open>Meter resize lemmas\<close>

lemma pushEmptySteps_eq: "pushEmptySteps n layer = layer @ replicate n emptyStep"
  by (induction n arbitrary: layer) (simp_all add: replicate_app_Cons_same)

lemma resizeLayer_length: "length (resizeLayer n layer) = n"
  by (simp add: resizeLayer_def pushEmptySteps_eq)

lemma resizeLayer_grow:
  "length layer \<le> n \<Longrightarrow> resizeLayer n layer = layer @ replicate (n - length layer) emptyStep"
  by (simp add: resizeLayer_def pushEmptySteps_eq)

lemma resizeLayer_shrink: "n \<le> length layer \<Longrightarrow> resizeLayer n layer = take n layer"
  by (simp add: resizeLayer_def)

lemma find_distinct_pid:
  "distinct (map pid ps) \<Longrightarrow> i < length ps \<Longrightarrow> find (\<lambda>p. pid p = pid (ps ! i)) ps = Some (ps ! i)"
proof (induction ps arbitrary: i)
  case Nil
  then show ?case by simp
next
  case (Cons p ps)
  show ?case
  proof (cases i)
    case 0
    then show ?thesis by simp
  next
    case (Suc k)
    with Cons.prems have k: "k < length ps" and d: "distinct (map pid ps)"
      and n: "pid p \<notin> pid ` set ps" by simp_all
    from k n have "pid p \<noteq> pid (ps ! k)" by (metis imageI nth_mem)
    with Suc Cons.IH [OF d k] show ?thesis by simp
  qed
qed

lemma stepsPerPattern_meter_update:
  assumes "distinct (map pid ps)" and "i < length ps"
  shows "stepsPerPattern (ps[i := (ps ! i)\<lparr>beatsPerMeasure := b, patStepsPerBeat := s\<rparr>]) (pid (ps ! i)) =
           clampBeatsPerMeasure b * clampStepsPerBeat s"
proof -
  let ?p = "(ps ! i)\<lparr>beatsPerMeasure := b, patStepsPerBeat := s\<rparr>"
  let ?ps = "ps[i := ?p]"
  have m: "map pid ?ps = map pid ps"
    using assms(2) by (simp add: map_update list_update_same_conv)
  have "find (\<lambda>p. pid p = pid (?ps ! i)) ?ps = Some (?ps ! i)"
    using assms by (intro find_distinct_pid) (simp_all add: m)
  with assms(2) have "findPattern ?ps (pid (ps ! i)) = Some ?p"
    by (simp add: findPattern_def)
  then show ?thesis by (simp add: stepsPerPattern_def)
qed

lemma clamp_eq:
  assumes "lo \<le> hi"
  shows "spec_clamp (Finite v) lo hi =
           (if v < of_nat lo then lo else if of_nat hi < v then hi else nat (js_trunc v))"
proof -
  have a: "v < of_nat lo \<Longrightarrow> js_trunc v \<le> int lo"
    unfolding js_trunc_def by (auto simp: floor_le_iff ceiling_le_iff)
  have b: "of_nat hi < v \<Longrightarrow> int hi \<le> js_trunc v"
    unfolding js_trunc_def by (auto simp: le_floor_iff)
  have c: "\<not> v < of_nat lo \<Longrightarrow> \<not> of_nat hi < v \<Longrightarrow> int lo \<le> js_trunc v \<and> js_trunc v \<le> int hi"
    unfolding js_trunc_def by (auto simp: le_floor_iff floor_le_iff)
  show ?thesis
    using a b c assms by (auto simp: spec_clamp_def max_def min_def)
qed

lemma clampBeatsPerMeasure_clamp: "clampBeatsPerMeasure x = spec_clamp x 1 16"
  by (cases x)
    (simp_all add: clamp_eq MIN_BEATS_PER_MEASURE_def MAX_BEATS_PER_MEASURE_def, simp add: spec_clamp_def)

lemma clampStepsPerBeat_clamp: "clampStepsPerBeat x = spec_clamp x 1 16"
  by (cases x)
    (simp_all add: clamp_eq MIN_STEPS_PER_BEAT_def MAX_STEPS_PER_BEAT_def, simp add: spec_clamp_def)

lemma clamp_range: "lo \<le> hi \<Longrightarrow> lo \<le> spec_clamp x lo hi \<and> spec_clamp x lo hi \<le> hi"
  by (cases x) (auto simp: spec_clamp_def)

section \<open>Registry and dispatch lemmas\<close>

lemma mapSet_keys: "fst ` set (mapSet k v es) = insert k (fst ` set es)"
  by (induction es) auto

lemma mapSet_distinct: "distinct (map fst es) \<Longrightarrow> distinct (map fst (mapSet k v es))"
proof (induction es)
  case Nil
  then show ?case by simp
next
  case (Cons e es)
  then show ?case
    by (cases "fst e = k") (auto simp: mapSet_keys)
qed

lemma mapDelete_keys: "fst ` set (mapDelete k es) \<subseteq> fst ` set es"
  by (induction es) auto

lemma mapDelete_distinct: "distinct (map fst es) \<Longrightarrow> distinct (map fst (mapDelete k es))"
proof (induction es)
  case Nil
  then show ?case by simp
next
  case (Cons e es)
  with mapDelete_keys [of k es] show ?case
    by (cases "fst e = k") auto
qed

lemma mapSet_count:
  "distinct (map fst es) \<Longrightarrow> length (filter (\<lambda>e. fst e = k) (mapSet k v es)) = 1"
proof (induction es)
  case Nil
  then show ?case by simp
next
  case (Cons e es)
  show ?case
  proof (cases "fst e = k")
    case True
    with Cons.prems have "k \<notin> fst ` set es" by simp
    then have "filter (\<lambda>e. fst e = k) es = []"
      unfolding filter_empty_conv by blast
    with True show ?thesis by simp
  next
    case False
    with Cons show ?thesis by simp
  qed
qed

lemma mapGet_mapSet: "mapGet (mapSet k v es) k = Some v"
  by (induction es) (simp_all add: mapGet_def)

lemma playNote_frame: "withoutAudio (playNote c n t d sy s) = withoutAudio s"
  by (simp add: withoutAudio_def playNote_def startVoice_def Let_def split: option.split)

lemma playPitches_frame: "withoutAudio (playPitches t d sy i bs s) = withoutAudio s"
  by (induction bs arbitrary: i s) (simp_all add: playNote_frame)

lemma playSynths_frame:
  "playSynths t sd pat st i sys s = Inr s' \<Longrightarrow> withoutAudio s' = withoutAudio s"
proof (induction sys arbitrary: i s)
  case Nil
  then show ?case by simp
next
  case (Cons sy sys)
  then show ?case
    by (auto simp: Let_def playPitches_frame split: if_splits)
qed

lemma playSynths_total:
  "0 \<le> st \<Longrightarrow> \<exists>s'. playSynths t sd pat st i sys s = Inr s'"
  by (induction sys arbitrary: i s) (simp_all add: Let_def)

lemma playStep_frame: "playStep t step s = Inr s' \<Longrightarrow> withoutAudio s' = withoutAudio s"
  by (auto simp: playStep_def Let_def split: option.splits dest: playSynths_frame)

lemma playStep_total:
  "0 \<le> g \<Longrightarrow> \<exists>s'. playStep t (Some g) s = Inr s'"
  by (auto simp: playStep_def Let_def playSynths_total getPatternAtStep_nonneg split: option.splits)

lemma withoutAudio_fields:
  assumes "withoutAudio s' = withoutAudio s"
  shows "patterns s' = patterns s" and "sequence s' = sequence s"
    and "selectedSequenceIndex s' = selectedSequenceIndex s" and "isPlaying s' = isPlaying s"
    and "currentStep s' = currentStep s" and "timeoutId s' = timeoutId s"
proof -
  have "patterns (withoutAudio s') = patterns (withoutAudio s)"
    "sequence (withoutAudio s') = sequence (withoutAudio s)"
    "selectedSequenceIndex (withoutAudio s') = selectedSequenceIndex (withoutAudio s)"
    "isPlaying (withoutAudio s') = isPlaying (withoutAudio s)"
    "currentStep (withoutAudio s') = currentStep (withoutAudio s)"
    "timeoutId (withoutAudio s') = timeoutId (withoutAudio s)"
    by (simp_all only: assms)
  then show "patterns s' = patterns s" and "sequence s' = sequence s"
    and "selectedSequenceIndex s' = selectedSequenceIndex s" and "isPlaying s' = isPlaying s"
    and "currentStep s' = currentStep s" and "timeoutId s' = timeoutId s"
    by (simp_all add: withoutAudio_def)
qed

lemma startVoice_distinct:
  "distinct (map fst (activeNotes s)) \<Longrightarrow> distinct (map fst (activeNotes (startVoice n t d sy s)))"
  by (simp add: startVoice_def Let_def mapSet_distinct)

lemma playNote_distinct:
  "distinct (map fst (activeNotes s)) \<Longrightarrow>
     distinct (map fst (activeNotes (playNote c n t d sy s)))"
  by (simp add: playNote_def startVoice_distinct mapSet_distinct mapDelete_distinct
      split: option.split)

lemma dispatches_distinct:
  "distinct (map fst (activeNotes s)) \<Longrightarrow> distinct (map fst (activeNotes (dispatches ds s)))"
proof (induction ds arbitrary: s)
  case Nil
  then show ?case by simp
next
  case (Cons x ds)
  obtain c n t d sy where x: "x = (c, n, t, d, sy)" by (cases x)
  from Cons.prems have "distinct (map fst (activeNotes (playNote c n t d sy s)))"
    by (rule playNote_distinct)
  then show ?case unfolding x by (simp add: Cons.IH)
qed

lemma playNote_nonlegato:
  "\<not> legatoSameNote sy \<Longrightarrow> activeNotes (playNote c n t d sy s) = activeNotes s"
  by (simp add: playNote_def startVoice_def Let_def)

lemma playNote_legato_count:
  assumes "legatoSameNote sy" and "distinct (map fst (activeNotes s))"
  shows "length (filter (\<lambda>e. fst e = (sid sy, n)) (activeNotes (playNote c n t d sy s))) = 1"
  using assms
  by (simp add: playNote_def startVoice_def Let_def mapSet_count mapDelete_distinct
      split: option.split)

lemma playNote_legato_entry:
  assumes "legatoSameNote sy"
  shows "\<exists>e. mapGet (activeNotes (playNote c n t d sy s)) (sid sy, n) = Some e \<and> releaseAt e = t + d"
  using assms
  by (simp add: playNote_def startVoice_def Let_def mapGet_mapSet split: option.split)

lemma playNote_reenvelope:
  assumes "legatoSameNote sy" and "mapGet (activeNotes s) (sid sy, n) = Some e"
    and "c < releaseAt e - 2 / 100"
  shows "voiceCount (playNote c n t d sy s) = voiceCount s"
    and "mapGet (activeNotes (playNote c n t d sy s)) (sid sy, n) = Some (e\<lparr>releaseAt := t + d\<rparr>)"
  using assms by (simp_all add: playNote_def mapGet_mapSet)

section \<open>Transport lemmas\<close>

lemma start_stopped:
  assumes "\<not> isPlaying s"
  shows "\<exists>s'. start t s = Inr s' \<and> isPlaying s' \<and> patterns s' = patterns s \<and>
           sequence s' = sequence s \<and> selectedSequenceIndex s' = selectedSequenceIndex s \<and>
           currentStep s' =
             Some (int (getStepForSequenceIndex (patterns s) (sequence s) (selectedSequenceIndex s)))"
proof -
  let ?g = "int (getStepForSequenceIndex (patterns s) (sequence s) (selectedSequenceIndex s))"
  let ?s2 = "s\<lparr>isPlaying := True, currentStep := Some ?g\<rparr>"
  obtain s3 where s3: "playStep t (Some ?g) ?s2 = Inr s3"
    using playStep_total [of ?g t ?s2] by auto
  from playStep_frame [OF s3] have f: "withoutAudio s3 = withoutAudio ?s2" .
  from assms s3 have "start t s = Inr (s3\<lparr>timeoutId := Some ()\<rparr>)"
    by (simp add: start_def Let_def)
  with withoutAudio_fields [OF f] show ?thesis by simp
qed

lemma tick_playing:
  assumes "isPlaying s" and "currentStep s = Some c" and "0 \<le> c" and "sequence s \<noteq> []"
  shows "\<exists>s'. startPlayingStepsUsingTimeout t s = Inr s' \<and> isPlaying s' \<and>
           patterns s' = patterns s \<and> sequence s' = sequence s \<and>
           currentStep s' = Some ((c + 1) mod int (totalSteps (patterns s) (sequence s)))"
proof -
  let ?n = "totalSteps (patterns s) (sequence s)"
  let ?g = "(c + 1) mod int ?n"
  from assms(4) have n: "0 < ?n" by (rule totalSteps_pos)
  with assms(2,3) have adv: "advanceStep (currentStep s) ?n = Some ?g"
    by (simp add: advanceStep_def js_rem_def)
  let ?s1 = "s\<lparr>currentStep := Some ?g\<rparr>"
  from n have "0 \<le> ?g" by simp
  then obtain s2 where s2: "playStep t (Some ?g) ?s1 = Inr s2"
    using playStep_total [of ?g t ?s1] by auto
  from playStep_frame [OF s2] have f: "withoutAudio s2 = withoutAudio ?s1" .
  from assms(1) adv s2 have "startPlayingStepsUsingTimeout t s = Inr (s2\<lparr>timeoutId := Some ()\<rparr>)"
    by (simp add: startPlayingStepsUsingTimeout_def Let_def)
  with withoutAudio_fields [OF f] assms(1) show ?thesis by simp
qed

lemma ticks_playing:
  "isPlaying s \<Longrightarrow> currentStep s = Some c \<Longrightarrow> 0 \<le> c \<Longrightarrow> c < int (totalSteps (patterns s) (sequence s)) \<Longrightarrow>
   \<exists>s'. ticks ts s = Inr s' \<and> isPlaying s' \<and>
           patterns s' = patterns s \<and> sequence s' = sequence s \<and>
           currentStep s' = Some ((c + int (length ts)) mod int (totalSteps (patterns s) (sequence s)))"
proof (induction ts arbitrary: s c)
  case Nil
  then show ?case by simp
next
  case (Cons t ts)
  let ?n = "int (totalSteps (patterns s) (sequence s))"
  from Cons.prems(3,4) have ne: "sequence s \<noteq> []"
    by (auto simp: totalSteps_eq)
  from tick_playing [OF Cons.prems(1,2,3) ne, of t] obtain s1 where
    s1: "startPlayingStepsUsingTimeout t s = Inr s1" and p1: "isPlaying s1"
    and f1: "patterns s1 = patterns s" "sequence s1 = sequence s"
    and c1: "currentStep s1 = Some ((c + 1) mod ?n)"
    by blast
  from Cons.prems(3,4) have b: "0 \<le> (c + 1) mod ?n" "(c + 1) mod ?n < int (totalSteps (patterns s1) (sequence s1))"
    by (simp_all add: f1)
  from Cons.IH [OF p1 c1 b] obtain s' where
    "ticks ts s1 = Inr s'" "isPlaying s'" "patterns s' = patterns s1" "sequence s' = sequence s1"
    "currentStep s' = Some (((c + 1) mod ?n + int (length ts)) mod ?n)"
    by (auto simp: f1)
  moreover have "((c + 1) mod ?n + int (length ts)) mod ?n = (c + int (length (t # ts))) mod ?n"
  proof -
    have e: "c + 1 + int (length ts) = c + int (length (t # ts))" by simp
    have "((c + 1) mod ?n + int (length ts)) mod ?n = (c + 1 + int (length ts)) mod ?n"
      by (rule mod_add_left_eq)
    then show ?thesis unfolding e .
  qed
  ultimately show ?case using s1 f1 by simp
qed



section \<open>The current layer\<close>

subsection \<open>Cells of a layer\<close>

lemma js_set_length_in: "0 \<le> i \<Longrightarrow> nat i < length xs \<Longrightarrow> length (js_set xs i v) = length xs"
  by (simp add: js_set_def)


lemma js_set_read:
  "(0 \<le> p \<and> nat p < length (js_set xs i v) \<and> js_set xs i v ! nat p) =
     (if p = i \<and> 0 \<le> i then v else 0 \<le> p \<and> nat p < length xs \<and> xs ! nat p)"
proof (cases "i < 0")
  case True
  then show ?thesis by (auto simp: js_set_def)
next
  case False
  show ?thesis
  proof (cases "nat i < length xs")
    case True
    with False show ?thesis
      by (auto simp: js_set_def nth_list_update nat_eq_iff)
  next
    case out: False
    show ?thesis
    proof (cases "p = i")
      case True
      with False out show ?thesis
        by (simp add: js_set_def nth_append)
    next
      case neq: False
      with False out show ?thesis
        by (auto simp: js_set_def nth_append nat_eq_iff not_less)
    qed
  qed
qed

lemma hasNoteAt_update:
  assumes "0 \<le> s" and "nat s < length layer"
  shows "hasNoteAt (layer[nat s := js_set (layer ! nat s) q v]) st p =
           (if (st, p) = (s, q) \<and> 0 \<le> q then v else hasNoteAt layer st p)"
proof (cases "st = s")
  case True
  with assms show ?thesis
    using js_set_read [of p "layer ! nat s" q v]
    by (simp add: hasNoteAt_def)
next
  case False
  with assms show ?thesis
    by (auto simp: hasNoteAt_def nth_list_update nat_eq_iff)
qed

lemma clearNotesAt_loop_length [simp]: "length (clearNotesAt_loop ps layer) = length layer"
  by (induction ps layer rule: clearNotesAt_loop.induct) simp_all

lemma setNotesAt_loop_length [simp]: "length (setNotesAt_loop ps layer) = length layer"
  by (induction ps layer rule: setNotesAt_loop.induct) simp_all

lemma hasNoteAt_nonneg: "hasNoteAt layer st p \<Longrightarrow> 0 \<le> st \<and> 0 \<le> p"
  by (simp add: hasNoteAt_def)

lemma hasNoteAt_clear:
  "hasNoteAt (clearNotesAt_loop ps layer) st p = (hasNoteAt layer st p \<and> (st, p) \<notin> set ps)"
proof (induction ps layer rule: clearNotesAt_loop.induct)
  case (1 layer)
  then show ?case by simp
next
  case (2 s q rest layer)
  show ?case
  proof (cases "0 \<le> s \<and> nat s < length layer")
    case True
    then have "hasNoteAt (layer[nat s := js_set (layer ! nat s) q False]) st p =
        (hasNoteAt layer st p \<and> (st, p) \<noteq> (s, q))"
      using hasNoteAt_update [of s layer q False st p] hasNoteAt_nonneg [of layer st p]
      by auto
    with True 2 show ?thesis by auto
  next
    case False
    then have "hasNoteAt layer st p \<Longrightarrow> st \<noteq> s"
      by (auto simp: hasNoteAt_def)
    with False 2 show ?thesis by auto
  qed
qed

lemma hasNoteAt_set:
  "hasNoteAt (setNotesAt_loop ps layer) st p =
     (hasNoteAt layer st p \<or> ((st, p) \<in> set ps \<and> inGrid (length layer) (st, p)))"
proof (induction ps layer rule: setNotesAt_loop.induct)
  case (1 layer)
  then show ?case by simp
next
  case (2 s q rest layer)
  show ?case
  proof (cases "inGrid (length layer) (s, q)")
    case True
    then have b: "0 \<le> s" "nat s < length layer" "0 \<le> q"
      by (auto simp: inGrid_def)
    have "hasNoteAt (layer[nat s := js_set (layer ! nat s) q True]) st p =
        (hasNoteAt layer st p \<or> (st, p) = (s, q))"
      using hasNoteAt_update [OF b(1,2), of q True st p] b(3) by auto
    with True 2 show ?thesis by (auto simp: inGrid_def)
  next
    case False
    with 2 show ?thesis by (auto simp: inGrid_def)
  qed
qed

lemma wfLayer_update:
  assumes "wfLayer layer" and "0 \<le> q" and "q < int NUM_PITCHES"
  shows "wfLayer (layer[nat s := js_set (layer ! nat s) q v])"
proof (cases "nat s < length layer")
  case True
  with assms(1) have "length (layer ! nat s) = NUM_PITCHES"
    by (simp add: wfLayer_def)
  with assms(2,3) have "length (js_set (layer ! nat s) q v) = NUM_PITCHES"
    by (simp add: js_set_length_in)
  with assms(1) show ?thesis
    by (auto simp: wfLayer_def dest: set_update_subset_insert [THEN subsetD])
next
  case False
  then have "layer[nat s := js_set (layer ! nat s) q v] = layer"
    by (intro list_update_beyond) simp
  with assms(1) show ?thesis by simp
qed






lemma hasNoteAt_createStepLayer: "\<not> hasNoteAt (createStepLayer n) st p"
  by (auto simp: hasNoteAt_def createStepLayer_def emptyStep_def)

lemma wfLayer_createStepLayer: "wfLayer (createStepLayer n)"
  by (simp add: wfLayer_def createStepLayer_def emptyStep_def)

lemma setNotesAt_loop_Cons:
  "setNotesAt_loop ((st, p) # rest) layer =
     setNotesAt_loop rest
       (if inGrid (length layer) (st, p) then layer[nat st := js_set (layer ! nat st) p True]
        else layer)"
  by (simp add: inGrid_def)

lemma setNotesAt_loop_filter:
  "setNotesAt_loop ps layer = setNotesAt_loop (filter (inGrid (length layer)) ps) layer"
proof (induction ps arbitrary: layer)
  case Nil
  then show ?case by simp
next
  case (Cons c ps)
  obtain st p where c: "c = (st, p)" by (cases c)
  show ?case
  proof (cases "inGrid (length layer) (st, p)")
    case True
    let ?l = "layer[nat st := js_set (layer ! nat st) p True]"
    have "setNotesAt_loop (c # ps) layer = setNotesAt_loop ps ?l"
      unfolding c setNotesAt_loop_Cons using True by simp
    also have "\<dots> = setNotesAt_loop (filter (inGrid (length ?l)) ps) ?l"
      by (rule Cons.IH)
    also have "\<dots> = setNotesAt_loop ((st, p) # filter (inGrid (length layer)) ps) layer"
      unfolding setNotesAt_loop_Cons using True by simp
    finally show ?thesis using True by (simp only: c filter.simps if_True)
  next
    case False
    have "setNotesAt_loop (c # ps) layer = setNotesAt_loop ps layer"
      unfolding c setNotesAt_loop_Cons using False by simp
    also have "\<dots> = setNotesAt_loop (filter (inGrid (length layer)) ps) layer"
      by (rule Cons.IH)
    finally show ?thesis using False by (simp only: c filter.simps if_False)
  qed
qed

lemma clearNotesAt_loop_filter:
  assumes "\<forall>c \<in> set ps. 0 \<le> snd c \<and> snd c < int NUM_PITCHES"
  shows "clearNotesAt_loop ps layer = clearNotesAt_loop (filter (inGrid (length layer)) ps) layer"
  using assms
proof (induction ps arbitrary: layer)
  case Nil
  then show ?case by simp
next
  case (Cons c ps)
  obtain st p where c: "c = (st, p)" by (cases c)
  from Cons.prems have p: "0 \<le> p" "p < int NUM_PITCHES"
    and rest: "\<forall>c \<in> set ps. 0 \<le> snd c \<and> snd c < int NUM_PITCHES"
    by (simp_all add: c)
  from p have g: "inGrid (length layer) (st, p) = (0 \<le> st \<and> nat st < length layer)"
    by (auto simp: inGrid_def)
  show ?case
  proof (cases "inGrid (length layer) (st, p)")
    case True
    let ?l = "layer[nat st := js_set (layer ! nat st) p False]"
    from True g have "clearNotesAt_loop (c # ps) layer = clearNotesAt_loop ps ?l"
      by (simp add: c)
    also have "\<dots> = clearNotesAt_loop (filter (inGrid (length ?l)) ps) ?l"
      using rest by (rule Cons.IH)
    also have "\<dots> = clearNotesAt_loop ((st, p) # filter (inGrid (length layer)) ps) layer"
      using True g by simp
    finally show ?thesis using True by (simp only: c filter.simps if_True)
  next
    case False
    with g have "clearNotesAt_loop (c # ps) layer = clearNotesAt_loop ps layer"
      by (auto simp: c)
    also have "\<dots> = clearNotesAt_loop (filter (inGrid (length layer)) ps) layer"
      using rest by (rule Cons.IH)
    finally show ?thesis using False by (simp only: c filter.simps if_False)
  qed
qed

subsection \<open>Writing the current layer back\<close>

lemma find_updFirst:
  "(\<And>x. P x \<Longrightarrow> P (f x)) \<Longrightarrow> find P (updFirst P f ps) = map_option f (find P ps)"
  by (induction ps) simp_all

lemma updFirst_updFirst:
  "(\<And>x. P x \<Longrightarrow> P (f x)) \<Longrightarrow> updFirst P g (updFirst P f ps) = updFirst P (\<lambda>x. g (f x)) ps"
  by (induction ps) simp_all

lemma updFirst_id:
  "find P ps = Some x \<Longrightarrow> f x = x \<Longrightarrow> updFirst P f ps = ps"
  by (induction ps) (auto split: if_splits)

lemma find_meter_updFirst:
  assumes "\<And>p. pid (f p) = pid p"
    and "\<And>p. beatsPerMeasure (f p) = beatsPerMeasure p"
    and "\<And>p. patStepsPerBeat (f p) = patStepsPerBeat p"
  shows "stepsPerPattern (updFirst P f ps) x = stepsPerPattern ps x"
proof -
  have "map_option (\<lambda>p. (beatsPerMeasure p, patStepsPerBeat p)) (find (\<lambda>p. pid p = x) (updFirst P f ps)) =
        map_option (\<lambda>p. (beatsPerMeasure p, patStepsPerBeat p)) (find (\<lambda>p. pid p = x) ps)"
    by (induction ps) (simp_all add: assms)
  then show ?thesis
    by (auto simp: stepsPerPattern_def findPattern_def split: option.splits)
qed

lemma getPatternAtStep_loop_cong:
  "(\<And>x. stepsPerPattern ps' x = stepsPerPattern ps x) \<Longrightarrow>
     getPatternAtStep_loop ps' g i acc rest = getPatternAtStep_loop ps g i acc rest"
  by (induction rest arbitrary: i acc) (simp_all add: Let_def)

lemma displayedPatternId_layers:
  assumes "\<And>x. stepsPerPattern ps' x = stepsPerPattern (patterns s) x"
  shows "displayedPatternId (s\<lparr>patterns := ps'\<rparr>) = displayedPatternId s"
  using getPatternAtStep_loop_cong [OF assms]
  by (simp add: displayedPatternId_def selectedPatternId_def getPatternAtCurrentStep_def
      getPatternAtStep_def split: option.split)

lemma displayedPatternId_setCurrentLayer [simp]:
  "displayedPatternId (setCurrentLayer l s) = displayedPatternId s"
  unfolding setCurrentLayer_def
  by (rule displayedPatternId_layers) (simp add: find_meter_updFirst)

lemma getCurrentLayer_setCurrentLayer:
  assumes "getCurrentLayer s = Some l0"
  shows "getCurrentLayer (setCurrentLayer l s) = Some l"
proof -
  let ?d = "displayedPatternId s"
  let ?f = "\<lambda>p. p\<lparr>layers := (layers p)[selectedSynthIndex s := l]\<rparr>"
  from assms obtain pat where pat: "find (\<lambda>p. pid p = ?d) (patterns s) = Some pat"
    and idx: "selectedSynthIndex s < length (layers pat)"
    by (auto simp: getCurrentLayer_def findPattern_def split: option.splits if_splits)
  have "find (\<lambda>p. pid p = ?d) (updFirst (\<lambda>p. pid p = ?d) ?f (patterns s)) = Some (?f pat)"
    by (simp add: find_updFirst pat)
  then have "findPattern (patterns (setCurrentLayer l s)) (displayedPatternId (setCurrentLayer l s)) =
      Some (?f pat)"
    by (simp add: findPattern_def) (simp add: setCurrentLayer_def)
  moreover have "selectedSynthIndex (setCurrentLayer l s) = selectedSynthIndex s"
    by (simp add: setCurrentLayer_def)
  ultimately show ?thesis
    using idx by (simp add: getCurrentLayer_def)
qed

lemma setCurrentLayer_twice:
  "setCurrentLayer l2 (setCurrentLayer l1 s) = setCurrentLayer l2 s"
proof -
  let ?P = "\<lambda>p. pid p = displayedPatternId s"
  let ?f = "\<lambda>l p. p\<lparr>layers := (layers p)[selectedSynthIndex s := l]\<rparr>"
  have "updFirst ?P (?f l2) (updFirst ?P (?f l1) (patterns s)) =
      updFirst ?P (\<lambda>x. ?f l2 (?f l1 x)) (patterns s)"
    by (rule updFirst_updFirst) simp
  also have "(\<lambda>x. ?f l2 (?f l1 x)) = ?f l2" by (rule ext) simp
  finally have "updFirst ?P (?f l2) (updFirst ?P (?f l1) (patterns s)) =
      updFirst ?P (?f l2) (patterns s)" .
  moreover have "setCurrentLayer l2 (setCurrentLayer l1 s) =
      s\<lparr>patterns := updFirst ?P (?f l2) (updFirst ?P (?f l1) (patterns s))\<rparr>"
    by (simp add: setCurrentLayer_def [of l2]) (simp add: setCurrentLayer_def)
  ultimately show ?thesis
    by (simp add: setCurrentLayer_def)
qed

lemma setCurrentLayer_same:
  assumes "getCurrentLayer s = Some l"
  shows "setCurrentLayer l s = s"
proof -
  let ?d = "displayedPatternId s"
  from assms obtain pat where pat: "find (\<lambda>p. pid p = ?d) (patterns s) = Some pat"
    and l: "layers pat ! selectedSynthIndex s = l"
    by (auto simp: getCurrentLayer_def findPattern_def split: option.splits if_splits)
  have "pat\<lparr>layers := (layers pat)[selectedSynthIndex s := l]\<rparr> = pat"
    by (simp add: l [symmetric])
  with pat have "updFirst (\<lambda>p. pid p = ?d) (\<lambda>p. p\<lparr>layers := (layers p)[selectedSynthIndex s := l]\<rparr>)
      (patterns s) = patterns s"
    by (rule updFirst_id)
  then show ?thesis by (simp add: setCurrentLayer_def)
qed

lemma clearNotesAt_layer:
  "getCurrentLayer s = Some l \<Longrightarrow> clearNotesAt ps s = setCurrentLayer (clearNotesAt_loop ps l) s"
  by (simp add: clearNotesAt_def)

lemma setNotesAt_layer:
  "getCurrentLayer s = Some l \<Longrightarrow> setNotesAt ps s = setCurrentLayer (setNotesAt_loop ps l) s"
  by (simp add: setNotesAt_def)

lemma cellActive_layer: "getCurrentLayer s = Some l \<Longrightarrow> cellActive s st p = hasNoteAt l st p"
  by (simp add: cellActive_def)

lemma setNotesAt_setCurrentLayer:
  assumes "getCurrentLayer s = Some l0"
  shows "setNotesAt ps (setCurrentLayer l s) = setCurrentLayer (setNotesAt_loop ps l) s"
  using getCurrentLayer_setCurrentLayer [OF assms, of l]
  by (simp add: setNotesAt_layer setCurrentLayer_twice)

lemma clearNotesAt_setCurrentLayer:
  assumes "getCurrentLayer s = Some l0"
  shows "clearNotesAt ps (setCurrentLayer l s) = setCurrentLayer (clearNotesAt_loop ps l) s"
  using getCurrentLayer_setCurrentLayer [OF assms, of l]
  by (simp add: clearNotesAt_layer setCurrentLayer_twice)

lemma cellActive_setCurrentLayer:
  assumes "getCurrentLayer s = Some l0"
  shows "cellActive (setCurrentLayer l s) st p = hasNoteAt l st p"
  using getCurrentLayer_setCurrentLayer [OF assms, of l]
  by (simp add: cellActive_layer)

subsection \<open>Fields the current layer does not depend on\<close>

lemmas layer_view_defs = getCurrentLayer_def displayedPatternId_def selectedPatternId_def
  getPatternAtCurrentStep_def

lemma layer_view_cong:
  assumes "patterns s' = patterns s" and "sequence s' = sequence s"
    and "selectedSequenceIndex s' = selectedSequenceIndex s" and "isPlaying s' = isPlaying s"
    and "currentStep s' = currentStep s" and "selectedSynthIndex s' = selectedSynthIndex s"
  shows "displayedPatternId s' = displayedPatternId s" and "getCurrentLayer s' = getCurrentLayer s"
  by (simp_all add: layer_view_defs assms cong: option.case_cong if_cong)

lemma cellActive_view:
  assumes "patterns s' = patterns s" and "sequence s' = sequence s"
    and "selectedSequenceIndex s' = selectedSequenceIndex s" and "isPlaying s' = isPlaying s"
    and "currentStep s' = currentStep s" and "selectedSynthIndex s' = selectedSynthIndex s"
  shows "cellActive s' st p = cellActive s st p"
  using layer_view_cong(2) [OF assms] by (simp add: cellActive_def)

lemma getCurrentLayer_selectedNotes [simp]:
  "getCurrentLayer (s\<lparr>selectedNotes := x\<rparr>) = getCurrentLayer s"
  by (rule layer_view_cong) simp_all

lemma getCurrentLayer_allowNonScaleNotes [simp]:
  "getCurrentLayer (s\<lparr>allowNonScaleNotes := x\<rparr>) = getCurrentLayer s"
  by (rule layer_view_cong) simp_all

lemma getCurrentLayer_drag_fields [simp]:
  "getCurrentLayer (s\<lparr>dragLastPositions := x, dragOverwrittenNotes := y\<rparr>) = getCurrentLayer s"
  by (rule layer_view_cong) simp_all

lemma setCurrentLayer_allowNonScaleNotes:
  "setCurrentLayer l (s\<lparr>allowNonScaleNotes := x\<rparr>) = (setCurrentLayer l s)\<lparr>allowNonScaleNotes := x\<rparr>"
proof -
  have "displayedPatternId (s\<lparr>allowNonScaleNotes := x\<rparr>) = displayedPatternId s"
    by (rule layer_view_cong) simp_all
  then show ?thesis by (simp add: setCurrentLayer_def)
qed

lemma selectedNotes_setCurrentLayer [simp]: "selectedNotes (setCurrentLayer l s) = selectedNotes s"
  by (simp add: setCurrentLayer_def)

lemma dragOverwrittenNotes_setCurrentLayer [simp]:
  "dragOverwrittenNotes (setCurrentLayer l s) = dragOverwrittenNotes s"
  by (simp add: setCurrentLayer_def)

lemma key_scale_setCurrentLayer [simp]:
  "key (setCurrentLayer l s) = key s" "scale (setCurrentLayer l s) = scale s"
  "allowNonScaleNotes (setCurrentLayer l s) = allowNonScaleNotes s"
  by (simp_all add: setCurrentLayer_def)

lemma allowNonScaleNotes_setCurrentLayer [simp]:
  "allowNonScaleNotes (setCurrentLayer l s) = allowNonScaleNotes s"
  "paintTargetState (setCurrentLayer l s) = paintTargetState s"
  by (simp_all add: setCurrentLayer_def)

lemma setCurrentLayer_fields [simp]:
  "isSelectingRect (setCurrentLayer l s) = isSelectingRect s"
  "isDragging (setCurrentLayer l s) = isDragging s"
  "dragStartCell (setCurrentLayer l s) = dragStartCell s"
  "dragStartNotes (setCurrentLayer l s) = dragStartNotes s"
  "dragLastPositions (setCurrentLayer l s) = dragLastPositions s"
  "isCloning (setCurrentLayer l s) = isCloning s"
  "isPainting (setCurrentLayer l s) = isPainting s"
  by (simp_all add: setCurrentLayer_def)

lemma getSelectedNotesArray_allowNonScaleNotes [simp]:
  "getSelectedNotesArray (s\<lparr>allowNonScaleNotes := a\<rparr>) = getSelectedNotesArray s"
  by (simp add: getSelectedNotesArray_def)

section \<open>Editing lemmas\<close>

subsection \<open>Selection\<close>

lemma setAdd_set [simp]: "set (setAdd x xs) = insert x (set xs)"
  by (auto simp: setAdd_def)

lemma fold_setAdd_set: "set (fold setAdd xs acc) = set xs \<union> set acc"
  by (induction xs arbitrary: acc) auto

lemma newSet_set [simp]: "set (newSet xs) = set xs"
  by (simp add: newSet_def fold_setAdd_set)


lemma addNotesInRect_pitches_set:
  "set (addNotesInRect_pitches layer st ps next) =
     set next \<union> {(st, p) | p. p \<in> set ps \<and> hasNoteAt layer st p}"
  unfolding addNotesInRect_pitches_def
  by (induction ps arbitrary: "next") auto

lemma addNotesInRect_steps_set:
  "set (fold (\<lambda>st acc. addNotesInRect_pitches layer st ps acc) sts next) =
     set next \<union> {(st, p) | st p. st \<in> set sts \<and> p \<in> set ps \<and> hasNoteAt layer st p}"
  by (induction sts arbitrary: "next") (auto simp: addNotesInRect_pitches_set)

lemma addNotesInRectToSelection_set:
  assumes "getCurrentLayer s = Some layer"
  shows "set (selectedNotes (addNotesInRectToSelection r s)) =
           set (selectedNotes s) \<union>
           {(st, p) | st p. minStep r \<le> st \<and> st \<le> maxStep r \<and> minPitch r \<le> p \<and> p \<le> maxPitch r \<and>
              hasNoteAt layer st p}"
  using assms by (auto simp: addNotesInRectToSelection_def addNotesInRect_steps_set)

subsection \<open>Keyboard nudge\<close>

lemma moveSelectedNotes_in_bounds:
  assumes "getCurrentLayer s = Some layer" and "getSelectedNotesArray s \<noteq> []"
    and "list_all (inGrid (length layer)) (map (translate dS dP) (getSelectedNotesArray s))"
  shows "moveSelectedNotes dS dP s =
           (setCurrentLayer
              (setNotesAt_loop (map (translate dS dP) (getSelectedNotesArray s))
                 (clearNotesAt_loop (getSelectedNotesArray s) layer)) s)
             \<lparr>selectedNotes := newSet (map (translate dS dP) (getSelectedNotesArray s))\<rparr>"
proof -
  let ?old = "getSelectedNotesArray s"
  let ?l1 = "clearNotesAt_loop ?old layer"
  have c: "clearNotesAt ?old s = setCurrentLayer ?l1 s"
    using assms(1) by (rule clearNotesAt_layer)
  have "getCurrentLayer (setCurrentLayer ?l1 s) = Some ?l1"
    using assms(1) by (rule getCurrentLayer_setCurrentLayer)
  then have "setNotesAt (map (translate dS dP) ?old) (setCurrentLayer ?l1 s) =
      setCurrentLayer (setNotesAt_loop (map (translate dS dP) ?old) ?l1) s"
    by (simp add: setNotesAt_layer setCurrentLayer_twice)
  with assms c show ?thesis
    by (simp add: moveSelectedNotes_def Let_def)
qed

lemma moveSelectedNotes_out_of_bounds:
  assumes "getCurrentLayer s = Some layer"
    and "\<not> list_all (inGrid (length layer)) (map (translate dS dP) (getSelectedNotesArray s))"
  shows "moveSelectedNotes dS dP s = s"
  using assms by (simp add: moveSelectedNotes_def Let_def)

lemma handleKeydown_arrow:
  assumes "selectedNotes s \<noteq> []" and "arrowDelta k = Some (dS, dP)"
  shows "handleKeydown t k s = Inr (moveSelectedNotes dS dP s)"
  using assms by (cases k) (simp_all add: handleKeydown_def)

lemma cellActive_after_move:
  assumes "getCurrentLayer s = Some layer"
    and "list_all (inGrid (length layer)) new"
  shows "cellActive ((setCurrentLayer (setNotesAt_loop new (clearNotesAt_loop old layer)) s)
             \<lparr>selectedNotes := x\<rparr>) st p =
           ((st, p) \<in> set new \<or> (cellActive s st p \<and> (st, p) \<notin> set old))"
proof -
  have "getCurrentLayer ((setCurrentLayer (setNotesAt_loop new (clearNotesAt_loop old layer)) s)
             \<lparr>selectedNotes := x\<rparr>) = Some (setNotesAt_loop new (clearNotesAt_loop old layer))"
    using assms(1) by (simp add: getCurrentLayer_setCurrentLayer)
  moreover from assms(2) have "(st, p) \<in> set new \<Longrightarrow> inGrid (length layer) (st, p)"
    by (simp add: list_all_iff)
  ultimately show ?thesis
    using assms(1) by (auto simp: cellActive_layer hasNoteAt_set hasNoteAt_clear)
qed

subsection \<open>Drag\<close>

lemma mousedown_starts_drag:
  assumes "(a, b) \<in> set (selectedNotes s)"
    and "\<not> metaKey e" and "\<not> ctrlKey e" and "\<not> shiftKey e"
    and "allowNonScaleNotes s \<or> isInScale (key s) (scale s) b"
  shows "mousedownOnCell a b e s =
           Inr (s\<lparr>selectedNotes := [], dragStartNotes := getSelectedNotesArray s,
                  dragStartCell := Some (a, b), dragLastPositions := [],
                  dragOverwrittenNotes := [], isCloning := altKey e, isDragging := True\<rparr>)"
  using assms
  by (auto simp: mousedownOnCell_def handleCellMousedown_def cellOpts_def isNoteSelected_def)

lemma mouseenter_drag:
  fixes x y a b :: int
  assumes "\<not> isSelectingRect s" and "isDragging s" and "dragStartCell s = Some (a, b)"
    and "getCurrentLayer s = Some layer"
  defines "cleared \<equiv> clearNotesAt_loop
      (if isCloning s then dragLastPositions s
       else if dragLastPositions s \<noteq> [] then dragLastPositions s
       else dragStartNotes s) layer"
  defines "restored \<equiv> setNotesAt_loop (dragOverwrittenNotes s) cleared"
  defines "newLast \<equiv> filter (inGrid (length layer)) (map (translate (x - a) (y - b)) (dragStartNotes s))"
  shows "handleCellMouseenter x y d s =
           Inr ((setCurrentLayer (setNotesAt_loop newLast restored) s)
                  \<lparr>dragLastPositions := newLast,
                   dragOverwrittenNotes := filter (\<lambda>p. hasNoteAt restored (fst p) (snd p)) newLast\<rparr>)"
  using assms(1-4)
  by (simp add: handleCellMouseenter_def Let_def clearNotesAt_layer [OF assms(4)]
      setNotesAt_setCurrentLayer [OF assms(4)] cellActive_setCurrentLayer [OF assms(4)]
      cleared_def restored_def newLast_def)








subsection \<open>Scale lock\<close>

lemma setCell_keeps_locked_cell:
  assumes lock: "\<not> allowNonScaleNotes s" and out: "\<not> isInScale (key s) (scale s) p"
    and w: "setCell st' p' v s = Inr s'"
  shows "cellActive s' st p = cellActive s st p"
proof (cases "isInScale (key s) (scale s) p'")
  case False
  with lock w show ?thesis by (simp add: setCell_def)
next
  case True
  with out have ne: "p' \<noteq> p" by auto
  show ?thesis
  proof (cases "getCurrentLayer s")
    case None
    with w True show ?thesis by (simp add: setCell_def split: if_splits)
  next
    case (Some layer)
    show ?thesis
    proof (cases "st' \<ge> int (length layer)")
      case True
      with w Some \<open>isInScale (key s) (scale s) p'\<close> show ?thesis
        by (simp add: setCell_def split: if_splits)
    next
      case False
      with w Some \<open>isInScale (key s) (scale s) p'\<close> have pos: "0 \<le> st'" and
        s': "s' = setCurrentLayer (layer[nat st' := js_set (layer ! nat st') p' v]) s"
        by (auto simp: setCell_def split: if_splits)
      from False pos have "nat st' < length layer" by simp
      from hasNoteAt_update [OF pos this, of p' v st p] ne
      show ?thesis
        unfolding s' by (simp add: cellActive_setCurrentLayer [OF Some] cellActive_layer [OF Some])
    qed
  qed
qed

lemma mousedown_keeps_locked_cell:
  assumes lock: "\<not> allowNonScaleNotes s" and out: "\<not> isInScale (key s) (scale s) p"
    and w: "handleCellMousedown st' p' e opts s = Inr s'"
  shows "cellActive s' st p = cellActive s st p"
proof (cases "isDisabled opts \<or> metaKey e \<or> ctrlKey e \<or> (shiftKey e \<and> hasNote opts) \<or>
    (noteSelected opts \<and> length (selectedNotes s) > 0)")
  case True
  with w have "patterns s' = patterns s \<and> sequence s' = sequence s \<and>
      selectedSequenceIndex s' = selectedSequenceIndex s \<and> isPlaying s' = isPlaying s \<and>
      currentStep s' = currentStep s \<and> selectedSynthIndex s' = selectedSynthIndex s"
    by (auto simp: handleCellMousedown_def split: if_splits)
  then show ?thesis by (intro cellActive_view) simp_all
next
  case False
  let ?s1 = "s\<lparr>selectedNotes := [], paintTargetState := \<not> hasNote opts\<rparr>"
  from False w obtain s2 where s2: "setCell st' p' (\<not> hasNote opts) ?s1 = Inr s2"
    and s': "s' = s2\<lparr>isPainting := True\<rparr>"
    by (auto simp: handleCellMousedown_def Let_def split: sum.splits)
  have "cellActive s2 st p = cellActive ?s1 st p"
    using s2 lock out by (intro setCell_keeps_locked_cell [of ?s1 p st' p' _ s2]) simp_all
  moreover have "cellActive ?s1 st p = cellActive s st p"
    by (rule cellActive_view) simp_all
  moreover have "cellActive s' st p = cellActive s2 st p"
    unfolding s' by (rule cellActive_view) simp_all
  ultimately show ?thesis by simp
qed

lemma mouseenter_keeps_locked_cell:
  assumes lock: "\<not> allowNonScaleNotes s" and out: "\<not> isInScale (key s) (scale s) p"
    and nodrag: "\<not> isDragging s"
    and w: "handleCellMouseenter st' p' d s = Inr s'"
  shows "cellActive s' st p = cellActive s st p"
proof (cases "isSelectingRect s")
  case True
  with w have "s' = s\<lparr>selectionRectExtent := Some (st', p')\<rparr>"
    by (simp add: handleCellMouseenter_def)
  then show ?thesis by (intro cellActive_view) simp_all
next
  case False
  show ?thesis
  proof (cases "isPainting s \<and> \<not> d")
    case True
    with False nodrag w have "setCell st' p' (paintTargetState s) s = Inr s'"
      by (simp add: handleCellMouseenter_def)
    with lock out show ?thesis by (rule setCell_keeps_locked_cell)
  next
    case other: False
    with False nodrag w show ?thesis
      by (auto simp: handleCellMouseenter_def)
  qed
qed

text \<open>
  With the lock on and \<open>p\<close> an out-of-scale pitch, \<^verbatim>\<open>setCell\<close> at \<open>(st, p)\<close> and a
  pointer-down on that cell return the session unchanged; every pointer-down, and every
  pointer-enter outside a drag, leaves the cell \<open>(st, p)\<close> as it was, wherever the event
  lands. The value of the lock does not affect what the cell reads as, and a note it holds
  is added to the selection by a rectangle selection that covers it.
\<close>

lemma locked_cell_rejects_paint:
  assumes "\<not> allowNonScaleNotes s" and "\<not> isInScale (key s) (scale s) p"
  shows "setCell st p v s = Inr s \<and>
         mousedownOnCell st p e s = Inr s \<and>
         (\<forall>st' p' e' s'. mousedownOnCell st' p' e' s = Inr s' \<longrightarrow>
            cellActive s' st p = cellActive s st p) \<and>
         (\<not> isDragging s \<longrightarrow>
            (\<forall>st' p' d s'. handleCellMouseenter st' p' d s = Inr s' \<longrightarrow>
               cellActive s' st p = cellActive s st p)) \<and>
         (\<forall>b. cellActive (s\<lparr>allowNonScaleNotes := b\<rparr>) st p = cellActive s st p) \<and>
         (\<forall>r :: Rect. cellActive s st p \<and> minStep r \<le> st \<and> st \<le> maxStep r \<and>
              minPitch r \<le> p \<and> p \<le> maxPitch r \<longrightarrow>
              (st, p) \<in> set (selectedNotes (addNotesInRectToSelection r s)))"
proof (intro conjI allI impI)
  show "setCell st p v s = Inr s"
    using assms by (simp add: setCell_def)
  show "mousedownOnCell st p e s = Inr s"
    using assms by (simp add: mousedownOnCell_def handleCellMousedown_def cellOpts_def)
next
  fix st' p' e' s'
  assume "mousedownOnCell st' p' e' s = Inr s'"
  then have "handleCellMousedown st' p' e' (cellOpts s st' p') s = Inr s'"
    by (simp add: mousedownOnCell_def)
  with assms show "cellActive s' st p = cellActive s st p"
    by (rule mousedown_keeps_locked_cell)
next
  fix st' p' d s'
  assume "\<not> isDragging s" and "handleCellMouseenter st' p' d s = Inr s'"
  with assms show "cellActive s' st p = cellActive s st p"
    by (rule mouseenter_keeps_locked_cell)
next
  fix b
  show "cellActive (s\<lparr>allowNonScaleNotes := b\<rparr>) st p = cellActive s st p"
    by (rule cellActive_view) simp_all
next
  fix r :: Rect
  assume a: "cellActive s st p \<and> minStep r \<le> st \<and> st \<le> maxStep r \<and>
    minPitch r \<le> p \<and> p \<le> maxPitch r"
  then obtain layer where l: "getCurrentLayer s = Some layer" and "hasNoteAt layer st p"
    by (auto simp: cellActive_def split: option.splits)
  with a show "(st, p) \<in> set (selectedNotes (addNotesInRectToSelection r s))"
    by (simp add: addNotesInRectToSelection_set [OF l])
qed

subsection \<open>Gestures in an idle session\<close>

lemma idle_mouseup: "idle s \<Longrightarrow> handleMouseup s = s"
  by (cases s) (simp add: idle_def handleMouseup_def)

lemma idle_mouseup_painting: "idle s \<Longrightarrow> handleMouseup (s\<lparr>isPainting := True\<rparr>) = s"
  by (cases s) (simp add: idle_def handleMouseup_def)

lemma idle_setCurrentLayer [simp]: "idle (setCurrentLayer l s) = idle s"
  by (simp add: idle_def setCurrentLayer_def)

lemma idle_selectedNotes [simp]: "idle (s\<lparr>selectedNotes := x\<rparr>) = idle s"
  by (simp add: idle_def)

lemma paint_note:
  assumes "allowNonScaleNotes s" and "idle s" and "selectedNotes s = []" and "paintTargetState s"
    and "getCurrentLayer s = Some layer"
    and "0 \<le> st" and "nat st < length layer" and "\<not> hasNoteAt layer st p"
  shows "run t (PointerDown st p noModifiers # PointerUp # evs) s =
           run t evs (setCurrentLayer (layer[nat st := js_set (layer ! nat st) p True]) s)"
proof -
  let ?s' = "setCurrentLayer (layer[nat st := js_set (layer ! nat st) p True]) s"
  have s1: "s\<lparr>selectedNotes := [], paintTargetState := True\<rparr> = s"
    using assms(3,4) by (cases s) simp
  have o: "cellOpts s st p = \<lparr> hasNote = False, noteSelected = False, isDisabled = False \<rparr>"
    using assms by (simp add: cellOpts_def cellActive_layer isNoteSelected_def)
  have c: "setCell st p True s = Inr ?s'"
    using assms by (simp add: setCell_def)
  have "mousedownOnCell st p noModifiers s = Inr (?s'\<lparr>isPainting := True\<rparr>)"
    using assms(4)
    by (simp add: mousedownOnCell_def handleCellMousedown_def o noModifiers_def s1 c)
  moreover have "handleMouseup (?s'\<lparr>isPainting := True\<rparr>) = ?s'"
    using assms(2) by (intro idle_mouseup_painting) simp
  ultimately show ?thesis by simp
qed

lemma shift_select_note:
  assumes "allowNonScaleNotes s" and "idle s" and "getCurrentLayer s = Some layer"
    and "hasNoteAt layer st p" and "(st, p) \<notin> set (selectedNotes s)"
  shows "run t (PointerDown st p shiftHeld # PointerUp # evs) s =
           run t evs (s\<lparr>selectedNotes := selectedNotes s @ [(st, p)]\<rparr>)"
proof -
  have o: "cellOpts s st p = \<lparr> hasNote = True, noteSelected = False, isDisabled = False \<rparr>"
    using assms by (simp add: cellOpts_def cellActive_layer isNoteSelected_def)
  have "mousedownOnCell st p shiftHeld s = Inr (s\<lparr>selectedNotes := selectedNotes s @ [(st, p)]\<rparr>)"
    using assms(5)
    by (simp add: mousedownOnCell_def handleCellMousedown_def o noModifiers_def shiftHeld_def setAdd_def)
  moreover have "handleMouseup (s\<lparr>selectedNotes := selectedNotes s @ [(st, p)]\<rparr>) =
      s\<lparr>selectedNotes := selectedNotes s @ [(st, p)]\<rparr>"
    using assms(2) by (intro idle_mouseup) simp
  ultimately show ?thesis by simp
qed

lemma run_append:
  "run t (xs @ ys) s = (case run t xs s of Inl err \<Rightarrow> Inl err | Inr s' \<Rightarrow> run t ys s')"
  by (induction xs arbitrary: s) (simp_all split: sum.split)

section \<open>Facts about the concrete sessions\<close>

lemmas meter_eval = createPattern_def createStepLayer_def findPattern_def stepsPerPattern_def
  js_trunc_def MIN_BEATS_PER_MEASURE_def MAX_BEATS_PER_MEASURE_def MIN_STEPS_PER_BEAT_def
  MAX_STEPS_PER_BEAT_def Let_def

lemma upt_MAX_PATTERNS: "[0 ..< MAX_PATTERNS] = [0, 1, 2, 3, 4, 5, 6, 7]"
  unfolding MAX_PATTERNS_def by code_simp

lemma stepsPerPattern_reset: "map (stepsPerPattern (patterns reset)) [0, 1] = [16, 16]"
  by (simp add: reset_def upt_MAX_PATTERNS MIN_PATTERN_ID_def meter_eval)

lemmas audio_eval = playNote_def startVoice_def mapGet_def legatoSynth_def defaultSynths_def
  reset_def Let_def

lemma patterns_reset:
  "patterns reset = map (\<lambda>i. createPattern i (Finite 4) (Finite 4)) [0, 1, 2, 3, 4, 5, 6, 7]"
  by (simp add: reset_def upt_MAX_PATTERNS MIN_PATTERN_ID_def)

lemma displayedPatternId_reset: "displayedPatternId reset = 0"
  by (simp add: displayedPatternId_def selectedPatternId_def reset_def)

lemma getCurrentLayer_reset: "getCurrentLayer reset = Some (createStepLayer 16)"
  unfolding getCurrentLayer_def displayedPatternId_reset patterns_reset
  by (simp add: meter_eval reset_def)

lemma reset_idle: "idle reset" "allowNonScaleNotes reset" "selectedNotes reset = []"
  "paintTargetState reset"
  by (simp_all add: idle_def reset_def)

lemma hasNoteAt_oneNoteLayer: "hasNoteAt oneNoteLayer st p = ((st, p) = (0, 0))"
proof -
  have "hasNoteAt (createStepLayer 16) st p = False"
    by (auto simp: hasNoteAt_def createStepLayer_def emptyStep_def)
  moreover have "createStepLayer 16 ! nat 0 = emptyStep"
    by (simp add: createStepLayer_def)
  ultimately show ?thesis
    using hasNoteAt_update [of 0 "createStepLayer 16" 0 True st p]
    by (simp add: oneNoteLayer_def createStepLayer_def)
qed

lemma wfLayer_oneNoteLayer: "wfLayer oneNoteLayer"
proof -
  have "wfLayer ((createStepLayer 16)[nat 0 := js_set (createStepLayer 16 ! nat 0) 0 True])"
    by (rule wfLayer_update [OF wfLayer_createStepLayer]) (simp_all add: NUM_PITCHES_def NUM_OCTAVES_def)
  then show ?thesis by (simp add: oneNoteLayer_def createStepLayer_def)
qed

lemma getCurrentLayer_oneNoteSelected: "getCurrentLayer oneNoteSelected = Some oneNoteLayer"
  unfolding oneNoteSelected_def
  by (simp add: getCurrentLayer_setCurrentLayer [OF getCurrentLayer_reset])

lemma oneNoteSelected_fields:
  "selectedNotes oneNoteSelected = [(0, 0)]" "getSelectedNotesArray oneNoteSelected = [(0, 0)]"
  "length oneNoteLayer = 16"
  by (simp_all add: oneNoteSelected_def getSelectedNotesArray_def splitKey_def oneNoteLayer_def
      createStepLayer_def)

lemma reach_oneNoteSelected:
  "run t [PointerDown 0 0 noModifiers, PointerUp, PointerDown 0 0 shiftHeld, PointerUp] reset =
     Inr oneNoteSelected"
proof -
  have l1: "getCurrentLayer (setCurrentLayer oneNoteLayer reset) = Some oneNoteLayer"
    using getCurrentLayer_reset by (rule getCurrentLayer_setCurrentLayer)
  have "run t [PointerDown 0 0 noModifiers, PointerUp, PointerDown 0 0 shiftHeld, PointerUp] reset =
      run t [PointerDown 0 0 shiftHeld, PointerUp] (setCurrentLayer oneNoteLayer reset)"
  proof -
    have "(createStepLayer 16)[nat 0 := js_set (createStepLayer 16 ! nat 0) 0 True] = oneNoteLayer"
      by (simp add: oneNoteLayer_def createStepLayer_def)
    moreover have "(0::int) \<le> 0" "nat 0 < length (createStepLayer 16)"
      by (simp_all add: createStepLayer_def)
    ultimately show ?thesis
      using paint_note [where st = 0 and p = 0 and t = t
          and evs = "[PointerDown 0 0 shiftHeld, PointerUp]",
          OF reset_idle(2,1,3,4) getCurrentLayer_reset _ _ hasNoteAt_createStepLayer]
      by (simp del: run.simps)
  qed
  also have "\<dots> = run t [] ((setCurrentLayer oneNoteLayer reset)\<lparr>selectedNotes := [] @ [(0, 0)]\<rparr>)"
    using shift_select_note [where st = 0 and p = 0 and t = t and evs = "[]", OF _ _ l1]
    by (simp add: reset_idle hasNoteAt_oneNoteLayer del: run.simps)
  finally show ?thesis by (simp add: oneNoteSelected_def)
qed

lemma displayedPatternId_oneNoteSelected: "displayedPatternId oneNoteSelected = 0"
proof -
  have "displayedPatternId oneNoteSelected = displayedPatternId (setCurrentLayer oneNoteLayer reset)"
    unfolding oneNoteSelected_def by (rule layer_view_cong) simp_all
  then show ?thesis by (simp add: displayedPatternId_reset)
qed

lemma patterns_oneNoteSelected:
  "patterns oneNoteSelected =
     (createPattern 0 (Finite 4) (Finite 4))\<lparr>layers := [oneNoteLayer, createStepLayer 16]\<rparr> #
     map (\<lambda>i. createPattern i (Finite 4) (Finite 4)) [1, 2, 3, 4, 5, 6, 7]"
  by (simp add: oneNoteSelected_def setCurrentLayer_def displayedPatternId_reset patterns_reset)
    (simp add: createPattern_def reset_def meter_eval)

lemma clearPattern_oneNoteSelected:
  "getCurrentLayer (clearPattern oneNoteSelected) = Some (createStepLayer 16)"
  "selectedNotes (clearPattern oneNoteSelected) = [(0, 0)]"
proof -
  have p: "patterns (clearPattern oneNoteSelected) = patterns reset"
    by (simp add: clearPattern_def displayedPatternId_oneNoteSelected patterns_oneNoteSelected
        findPattern_def patterns_reset)
      (simp add: createPattern_def meter_eval)
  have "getCurrentLayer (clearPattern oneNoteSelected) = getCurrentLayer reset"
    by (rule layer_view_cong) (simp_all add: p, simp_all add: clearPattern_def oneNoteSelected_def
        setCurrentLayer_def split: option.split)
  then show "getCurrentLayer (clearPattern oneNoteSelected) = Some (createStepLayer 16)"
    by (simp add: getCurrentLayer_reset)
  show "selectedNotes (clearPattern oneNoteSelected) = [(0, 0)]"
    by (simp add: clearPattern_def oneNoteSelected_def split: option.split)
qed

lemma isInScale_C_minor_0: "\<not> isInScale ''C'' NaturalMinor 0"
  by (simp add: isInScale_def getChromaticIndex_def chromatic_def js_rem_def NUM_PITCHES_def
      NUM_OCTAVES_def Let_def)

lemma isInScale_C_minor:
  "isInScale ''C'' NaturalMinor 71" "isInScale ''C'' NaturalMinor 69"
  "\<not> isInScale ''C'' NaturalMinor 67"
  by (simp_all add: isInScale_def getChromaticIndex_def chromatic_def js_rem_def NUM_PITCHES_def
      NUM_OCTAVES_def Let_def)

lemma hasNoteAt_twoNoteLayer:
  "hasNoteAt twoNoteLayer st p = ((st, p) = (0, 0) \<or> (st, p) = (1, 0))"
  unfolding twoNoteLayer_def hasNoteAt_set
  using hasNoteAt_createStepLayer [of 16 st p]
  by (auto simp: inGrid_def createStepLayer_def NUM_PITCHES_def NUM_OCTAVES_def)

lemma lockedOverlap_fields:
  "getCurrentLayer lockedOverlap = Some twoNoteLayer"
  "selectedNotes lockedOverlap = [(0, 0)]" "getSelectedNotesArray lockedOverlap = [(0, 0)]"
  "\<not> allowNonScaleNotes lockedOverlap" "key lockedOverlap = ''C''" "scale lockedOverlap = NaturalMinor"
  "idle lockedOverlap" "length twoNoteLayer = 16"
proof -
  have "getCurrentLayer lockedOverlap = getCurrentLayer (setCurrentLayer twoNoteLayer reset)"
    unfolding lockedOverlap_def by (rule layer_view_cong) simp_all
  then show "getCurrentLayer lockedOverlap = Some twoNoteLayer"
    by (simp add: getCurrentLayer_setCurrentLayer [OF getCurrentLayer_reset])
  show "selectedNotes lockedOverlap = [(0, 0)]" "getSelectedNotesArray lockedOverlap = [(0, 0)]"
    "\<not> allowNonScaleNotes lockedOverlap"
    by (simp_all add: lockedOverlap_def getSelectedNotesArray_def splitKey_def)
  show "key lockedOverlap = ''C''" "scale lockedOverlap = NaturalMinor"
    by (simp_all add: lockedOverlap_def reset_def)
  show "idle lockedOverlap"
    by (simp add: lockedOverlap_def idle_def reset_idle [unfolded idle_def])
  show "length twoNoteLayer = 16"
    by (simp add: twoNoteLayer_def createStepLayer_def)
qed

lemma patterns_lockedOverlap:
  "patterns lockedOverlap =
     (createPattern 0 (Finite 4) (Finite 4))\<lparr>layers := [twoNoteLayer, createStepLayer 16]\<rparr> #
     map (\<lambda>i. createPattern i (Finite 4) (Finite 4)) [1, 2, 3, 4, 5, 6, 7]"
  by (simp add: lockedOverlap_def setCurrentLayer_def displayedPatternId_reset patterns_reset)
    (simp add: createPattern_def reset_def meter_eval)

lemma hasNoteAt_chordLayer:
  "hasNoteAt chordLayer st p = ((st, p) = (0, 71) \<or> (st, p) = (0, 69))"
proof -
  have "\<not> hasNoteAt (createStepLayer 16) st p"
    by (auto simp: hasNoteAt_def createStepLayer_def emptyStep_def)
  then show ?thesis
    unfolding chordLayer_def hasNoteAt_set
    by (auto simp: inGrid_def createStepLayer_def NUM_PITCHES_def NUM_OCTAVES_def)
qed

lemma lockedChord_fields:
  "getCurrentLayer lockedChord = Some chordLayer"
  "selectedNotes lockedChord = [(0, 71), (0, 69)]"
  "getSelectedNotesArray lockedChord = [(0, 71), (0, 69)]"
  "\<not> allowNonScaleNotes lockedChord" "key lockedChord = ''C''" "scale lockedChord = NaturalMinor"
  "\<not> isSelectingRect lockedChord"
proof -
  have "getCurrentLayer lockedChord = getCurrentLayer (setCurrentLayer chordLayer reset)"
    unfolding lockedChord_def by (rule layer_view_cong) simp_all
  then show "getCurrentLayer lockedChord = Some chordLayer"
    by (simp add: getCurrentLayer_setCurrentLayer [OF getCurrentLayer_reset])
  show "selectedNotes lockedChord = [(0, 71), (0, 69)]"
    "getSelectedNotesArray lockedChord = [(0, 71), (0, 69)]"
    "\<not> allowNonScaleNotes lockedChord"
    by (simp_all add: lockedChord_def getSelectedNotesArray_def splitKey_def)
  show "key lockedChord = ''C''" "scale lockedChord = NaturalMinor" "\<not> isSelectingRect lockedChord"
    by (simp_all add: lockedChord_def reset_def)
qed

lemma lockedChord_drag:
  assumes "\<not> metaKey e" and "\<not> ctrlKey e" and "\<not> shiftKey e"
  shows "(case mousedownOnCell 0 71 e lockedChord of
            Inl err \<Rightarrow> False
          | Inr s1 \<Rightarrow>
              (case handleCellMouseenter 0 69 False s1 of
                 Inl err \<Rightarrow> False
               | Inr s2 \<Rightarrow> cellActive s2 0 67))"
proof -
  let ?s1 = "lockedChord\<lparr>selectedNotes := [], dragStartNotes := getSelectedNotesArray lockedChord,
      dragStartCell := Some (0, 71), dragLastPositions := [], dragOverwrittenNotes := [],
      isCloning := altKey e, isDragging := True\<rparr>"
  have down: "mousedownOnCell 0 71 e lockedChord = Inr ?s1"
    using assms by (intro mousedown_starts_drag) (simp_all add: lockedChord_fields isInScale_C_minor)
  have "getCurrentLayer ?s1 = getCurrentLayer lockedChord"
    by (rule layer_view_cong) simp_all
  then have l1: "getCurrentLayer ?s1 = Some chordLayer"
    by (simp add: lockedChord_fields)
  have f: "\<not> isSelectingRect ?s1" "isDragging ?s1" "dragStartCell ?s1 = Some (0, 71)"
    by (simp_all add: lockedChord_fields)
  have len: "length chordLayer = 16"
    by (simp add: chordLayer_def createStepLayer_def)
  let ?newLast = "filter (inGrid (length chordLayer))
      (map (translate (0 - 0) (69 - 71)) (dragStartNotes ?s1))"
  have n: "?newLast = [(0, 69), (0, 67)]"
    by (simp add: lockedChord_fields len translate_def inGrid_def NUM_PITCHES_def NUM_OCTAVES_def)
  note m = mouseenter_drag [OF f l1, of 0 69 False, unfolded n]
  have "cellActive s2 0 67" if "handleCellMouseenter 0 69 False ?s1 = Inr s2" for s2
  proof -
    from that m obtain L over where
      s2: "s2 = (setCurrentLayer (setNotesAt_loop [(0, 69), (0, 67)] L) ?s1)
                  \<lparr>dragLastPositions := [(0, 69), (0, 67)], dragOverwrittenNotes := over\<rparr>"
      and L: "length L = 16"
      by (auto simp: len)
    have g: "getCurrentLayer s2 = Some (setNotesAt_loop [(0, 69), (0, 67)] L)"
      unfolding s2 using l1 by (simp add: getCurrentLayer_setCurrentLayer)
    show ?thesis
      unfolding cellActive_def g option.case hasNoteAt_set
      by (simp add: L inGrid_def NUM_PITCHES_def NUM_OCTAVES_def)
  qed
  with m down show ?thesis by simp
qed

lemma length_createStepLayer: "length (createStepLayer n) = n"
  by (simp add: createStepLayer_def)

lemma painted_reset:
  "allowNonScaleNotes (setCurrentLayer layer reset)" "idle (setCurrentLayer layer reset)"
  "selectedNotes (setCurrentLayer layer reset) = []" "paintTargetState (setCurrentLayer layer reset)"
  "getCurrentLayer (setCurrentLayer layer reset) = Some layer"
  by (simp_all add: reset_idle getCurrentLayer_setCurrentLayer [OF getCurrentLayer_reset])

lemma paint_on_reset:
  assumes "0 \<le> st" and "nat st < length layer" and "\<not> hasNoteAt layer st p"
  shows "run t (PointerDown st p noModifiers # PointerUp # evs) (setCurrentLayer layer reset) =
           run t evs (setCurrentLayer (layer[nat st := js_set (layer ! nat st) p True]) reset)"
  using paint_note [where t = t and evs = evs, OF painted_reset(1,2,3,4,5) assms]
  by (simp add: setCurrentLayer_twice del: run.simps)

lemma select_on_reset:
  assumes "hasNoteAt layer st p" and "(st, p) \<notin> set sel"
  shows "run t (PointerDown st p shiftHeld # PointerUp # evs)
             ((setCurrentLayer layer reset)\<lparr>selectedNotes := sel\<rparr>) =
           run t evs ((setCurrentLayer layer reset)\<lparr>selectedNotes := sel @ [(st, p)]\<rparr>)"
proof -
  let ?s = "(setCurrentLayer layer reset)\<lparr>selectedNotes := sel\<rparr>"
  have "allowNonScaleNotes ?s" "idle ?s" "getCurrentLayer ?s = Some layer"
    by (simp_all add: painted_reset reset_idle)
  from shift_select_note [where t = t and evs = evs, OF this assms(1)] assms(2)
  show ?thesis by (simp del: run.simps)
qed

lemma reset_as_painted: "reset = setCurrentLayer (createStepLayer 16) reset"
  by (simp add: setCurrentLayer_same [OF getCurrentLayer_reset])

lemma unselected_as_selected:
  "setCurrentLayer layer reset = (setCurrentLayer layer reset)\<lparr>selectedNotes := []\<rparr>"
  using painted_reset(3) [of layer] by (cases "setCurrentLayer layer reset") simp

lemma reach_lockedOverlap:
  "run t [PointerDown 0 0 noModifiers, PointerUp, PointerDown 1 0 noModifiers, PointerUp,
          PointerDown 0 0 shiftHeld, PointerUp, AllowNonScaleNotes False] reset =
     Inr lockedOverlap"
proof -
  let ?l0 = "createStepLayer 16"
  let ?l1 = "?l0[0 := js_set (?l0 ! 0) 0 True]"
  let ?l2 = "?l1[1 := js_set (?l1 ! 1) 0 True]"
  have n: "\<not> hasNoteAt ?l0 0 0" "\<not> hasNoteAt ?l1 1 0"
    by (simp_all add: hasNoteAt_def createStepLayer_def emptyStep_def js_set_def NUM_PITCHES_def
        NUM_OCTAVES_def)
  have l2: "?l2 = twoNoteLayer"
    by (simp add: twoNoteLayer_def createStepLayer_def NUM_PITCHES_def NUM_OCTAVES_def)
  have h: "hasNoteAt twoNoteLayer 0 0" by (simp add: hasNoteAt_twoNoteLayer)
  have "run t [PointerDown 0 0 noModifiers, PointerUp, PointerDown 1 0 noModifiers, PointerUp,
          PointerDown 0 0 shiftHeld, PointerUp, AllowNonScaleNotes False] (setCurrentLayer ?l0 reset) =
      run t [PointerDown 1 0 noModifiers, PointerUp,
          PointerDown 0 0 shiftHeld, PointerUp, AllowNonScaleNotes False] (setCurrentLayer ?l1 reset)"
    using paint_on_reset [where st = 0 and p = 0 and layer = ?l0 and t = t] n(1)
    by (simp add: length_createStepLayer del: run.simps)
  also have "\<dots> = run t [PointerDown 0 0 shiftHeld, PointerUp, AllowNonScaleNotes False]
      (setCurrentLayer ?l2 reset)"
    using paint_on_reset [where st = 1 and p = 0 and layer = ?l1 and t = t] n(2)
    by (simp add: length_createStepLayer del: run.simps)
  also have "\<dots> = run t [PointerDown 0 0 shiftHeld, PointerUp, AllowNonScaleNotes False]
      ((setCurrentLayer twoNoteLayer reset)\<lparr>selectedNotes := []\<rparr>)"
    unfolding l2 by (subst unselected_as_selected) (rule refl)
  also have "\<dots> = run t [AllowNonScaleNotes False]
      ((setCurrentLayer twoNoteLayer reset)\<lparr>selectedNotes := [] @ [(0, 0)]\<rparr>)"
    by (rule select_on_reset) (simp_all add: h)
  also have "\<dots> = Inr lockedOverlap"
    by (simp add: lockedOverlap_def)
  finally show ?thesis
    by (simp only: reset_as_painted [symmetric])
qed

lemma reach_lockedChord:
  "run t [PointerDown 0 71 noModifiers, PointerUp, PointerDown 0 69 noModifiers, PointerUp,
          PointerDown 0 71 shiftHeld, PointerUp, PointerDown 0 69 shiftHeld, PointerUp,
          AllowNonScaleNotes False] reset =
     Inr lockedChord"
proof -
  let ?l0 = "createStepLayer 16"
  let ?l1 = "?l0[0 := js_set (?l0 ! 0) 71 True]"
  let ?l2 = "?l1[0 := js_set (?l1 ! 0) 69 True]"
  have n: "\<not> hasNoteAt ?l0 0 71" "\<not> hasNoteAt ?l1 0 69"
    by (simp_all add: hasNoteAt_def createStepLayer_def emptyStep_def js_set_def NUM_PITCHES_def
        NUM_OCTAVES_def)
  have l2: "?l2 = chordLayer"
    by (simp add: chordLayer_def createStepLayer_def NUM_PITCHES_def NUM_OCTAVES_def)
  have h: "hasNoteAt chordLayer 0 71" "hasNoteAt chordLayer 0 69"
    by (simp_all add: hasNoteAt_chordLayer)
  have "run t [PointerDown 0 71 noModifiers, PointerUp, PointerDown 0 69 noModifiers, PointerUp,
          PointerDown 0 71 shiftHeld, PointerUp, PointerDown 0 69 shiftHeld, PointerUp,
          AllowNonScaleNotes False] (setCurrentLayer ?l0 reset) =
      run t [PointerDown 0 69 noModifiers, PointerUp,
          PointerDown 0 71 shiftHeld, PointerUp, PointerDown 0 69 shiftHeld, PointerUp,
          AllowNonScaleNotes False] (setCurrentLayer ?l1 reset)"
    using paint_on_reset [where st = 0 and p = 71 and layer = ?l0 and t = t] n(1)
    by (simp add: length_createStepLayer del: run.simps)
  also have "\<dots> = run t [PointerDown 0 71 shiftHeld, PointerUp, PointerDown 0 69 shiftHeld, PointerUp,
          AllowNonScaleNotes False] (setCurrentLayer ?l2 reset)"
    using paint_on_reset [where st = 0 and p = 69 and layer = ?l1 and t = t] n(2)
    by (simp add: length_createStepLayer del: run.simps)
  also have "\<dots> = run t [PointerDown 0 71 shiftHeld, PointerUp, PointerDown 0 69 shiftHeld, PointerUp,
          AllowNonScaleNotes False] ((setCurrentLayer chordLayer reset)\<lparr>selectedNotes := []\<rparr>)"
    unfolding l2 by (subst unselected_as_selected) (rule refl)
  also have "\<dots> = run t [PointerDown 0 69 shiftHeld, PointerUp, AllowNonScaleNotes False]
      ((setCurrentLayer chordLayer reset)\<lparr>selectedNotes := [] @ [(0, 71)]\<rparr>)"
    by (rule select_on_reset) (simp_all add: h)
  also have "\<dots> = run t [AllowNonScaleNotes False]
      ((setCurrentLayer chordLayer reset)\<lparr>selectedNotes := ([] @ [(0, 71)]) @ [(0, 69)]\<rparr>)"
    by (rule select_on_reset) (simp_all add: h)
  also have "\<dots> = Inr lockedChord"
    by (simp add: lockedChord_def)
  finally show ?thesis
    by (simp only: reset_as_painted [symmetric])
qed

text \<open>
  Outside the coordinates that the handlers pass, the guards of \<^verbatim>\<open>setCell\<close> and
  \<^verbatim>\<open>clearNotesAt\<close> do not hold: in the initial session \<^verbatim>\<open>setCell(-1, 0, true)\<close> throws,
  \<^verbatim>\<open>setCell(0, 72, true)\<close> stores a note at pitch 72 of step 0, whose array grows from 72
  to 73 elements, and \<^verbatim>\<open>clearNotesAt\<close> at (0, 72) grows the array to 73 elements as
  well. \<^verbatim>\<open>setNotesAt\<close>, which tests both coordinates against both bounds, returns the
  session unchanged at coordinates outside the grid on either side.
\<close>

lemma unguarded_coordinates:
  "setCell (- 1) 0 True reset = Inl TypeError \<and>
   \<not> cellActive reset 0 72 \<and>
   (\<exists>s'. setCell 0 72 True reset = Inr s' \<and> cellActive s' 0 72 \<and>
      map_option (\<lambda>layer. length (layer ! 0)) (getCurrentLayer s') = Some 73) \<and>
   map_option (\<lambda>layer. length (layer ! 0)) (getCurrentLayer reset) = Some 72 \<and>
   map_option (\<lambda>layer. length (layer ! 0)) (getCurrentLayer (clearNotesAt [(0, 72)] reset)) = Some 73 \<and>
   setNotesAt [(- 1, 0), (0, 72), (16, 0), (0, - 1)] reset = reset"
proof -
  have a: "allowNonScaleNotes reset" by (simp add: reset_def)
  have e: "createStepLayer 16 ! 0 = emptyStep" "length emptyStep = 72"
    by (simp_all add: createStepLayer_def emptyStep_def NUM_PITCHES_def NUM_OCTAVES_def)
  have 1: "setCell (- 1) 0 True reset = Inl TypeError"
    by (simp add: setCell_def a getCurrentLayer_reset)
  have 2: "\<not> cellActive reset 0 72"
    by (simp add: cellActive_layer [OF getCurrentLayer_reset] hasNoteAt_def e)
  let ?l = "(createStepLayer 16)[0 := emptyStep @ [True]]"
  have s: "setCell 0 72 True reset = Inr (setCurrentLayer ?l reset)"
    by (simp add: setCell_def a getCurrentLayer_reset e js_set_def) (simp add: createStepLayer_def)
  have l: "getCurrentLayer (setCurrentLayer ?l reset) = Some ?l"
    using getCurrentLayer_reset by (rule getCurrentLayer_setCurrentLayer)
  have l0: "?l ! 0 = emptyStep @ [True]" "0 < length ?l"
    by (simp_all add: createStepLayer_def)
  have 3: "cellActive (setCurrentLayer ?l reset) 0 72"
    "map_option (\<lambda>layer. length (layer ! 0)) (getCurrentLayer (setCurrentLayer ?l reset)) = Some 73"
    using l0 by (simp_all add: cellActive_layer [OF l] l hasNoteAt_def e nth_append)
  have 4: "map_option (\<lambda>layer. length (layer ! 0)) (getCurrentLayer reset) = Some 72"
    by (simp add: getCurrentLayer_reset e)
  let ?c = "(createStepLayer 16)[0 := emptyStep @ [False]]"
  have "clearNotesAt [(0, 72)] reset = setCurrentLayer ?c reset"
    by (simp add: clearNotesAt_layer [OF getCurrentLayer_reset] e js_set_def)
  moreover have "getCurrentLayer (setCurrentLayer ?c reset) = Some ?c"
    using getCurrentLayer_reset by (rule getCurrentLayer_setCurrentLayer)
  moreover have "?c ! 0 = emptyStep @ [False]"
    by (simp add: createStepLayer_def)
  ultimately have 5: "map_option (\<lambda>layer. length (layer ! 0)) (getCurrentLayer (clearNotesAt [(0, 72)] reset)) = Some 73"
    by (simp add: e)
  have 6: "setNotesAt [(- 1, 0), (0, 72), (16, 0), (0, - 1)] reset = reset"
    by (simp add: setNotesAt_layer [OF getCurrentLayer_reset] NUM_PITCHES_def NUM_OCTAVES_def
        setCurrentLayer_same [OF getCurrentLayer_reset]) (simp add: createStepLayer_def setCurrentLayer_same [OF getCurrentLayer_reset [unfolded createStepLayer_def]])
  from 1 2 s 3 4 5 6 show ?thesis by simp
qed








section \<open>The claims\<close>

text \<open>
  C1. \<^verbatim>\<open>start\<close> in a stopped session sets \<^verbatim>\<open>currentStep\<close> to the sum of the step
  counts of the sequence entries before \<^verbatim>\<open>selectedSequenceIndex\<close>. A timer tick in a
  playing session sets it to \<^verbatim>\<open>(currentStep + 1) mod totalSteps()\<close>. So after \<open>N\<close> ticks
  that follow a \<^verbatim>\<open>start\<close> with \<^verbatim>\<open>selectedSequenceIndex = 0\<close>, \<^verbatim>\<open>currentStep\<close> is
  \<open>N mod totalSteps()\<close>; and \<^verbatim>\<open>stop\<close> followed by \<^verbatim>\<open>start\<close> sets it to
  \<^verbatim>\<open>getStepForSequenceIndex(selectedSequenceIndex)\<close>. None of these calls throws.
\<close>

theorem transport_current_step:
  "(\<not> isPlaying s \<longrightarrow>
      (\<exists>s1. start t0 s = Inr s1 \<and> isPlaying s1 \<and>
         currentStep s1 =
           Some (int (sum_list (map (stepsPerPattern (patterns s))
                                  (take (selectedSequenceIndex s) (sequence s))))))) \<and>
   (isPlaying p \<and> currentStep p = Some c \<and> 0 \<le> c \<and> sequence p \<noteq> [] \<longrightarrow>
      (\<exists>p'. startPlayingStepsUsingTimeout t p = Inr p' \<and> isPlaying p' \<and>
         currentStep p' = Some ((c + 1) mod int (totalSteps (patterns p) (sequence p))))) \<and>
   (\<not> isPlaying s \<and> selectedSequenceIndex s = 0 \<and> sequence s \<noteq> [] \<longrightarrow>
      (\<exists>s1 sN. start t0 s = Inr s1 \<and> ticks ts s1 = Inr sN \<and>
         currentStep sN = Some (int (length ts mod totalSteps (patterns s) (sequence s))))) \<and>
   (\<exists>q'. start t1 (stop q) = Inr q' \<and>
      currentStep q' =
        Some (int (getStepForSequenceIndex (patterns q) (sequence q) (selectedSequenceIndex q))))"
proof (intro conjI impI)
  assume "\<not> isPlaying s"
  from start_stopped [OF this, of t0]
  show "\<exists>s1. start t0 s = Inr s1 \<and> isPlaying s1 \<and>
         currentStep s1 =
           Some (int (sum_list (map (stepsPerPattern (patterns s))
                                  (take (selectedSequenceIndex s) (sequence s)))))"
    by (auto simp: getStepForSequenceIndex_eq)
next
  assume "isPlaying p \<and> currentStep p = Some c \<and> 0 \<le> c \<and> sequence p \<noteq> []"
  then have "isPlaying p" "currentStep p = Some c" "0 \<le> c" "sequence p \<noteq> []"
    by simp_all
  from tick_playing [OF this, of t]
  show "\<exists>p'. startPlayingStepsUsingTimeout t p = Inr p' \<and> isPlaying p' \<and>
         currentStep p' = Some ((c + 1) mod int (totalSteps (patterns p) (sequence p)))"
    by blast
next
  assume a: "\<not> isPlaying s \<and> selectedSequenceIndex s = 0 \<and> sequence s \<noteq> []"
  let ?n = "totalSteps (patterns s) (sequence s)"
  from a start_stopped [of s t0] obtain s1 where s1: "start t0 s = Inr s1"
    and p1: "isPlaying s1" and f1: "patterns s1 = patterns s" "sequence s1 = sequence s"
    and c1: "currentStep s1 = Some 0"
    by (auto simp: getStepForSequenceIndex_eq)
  from a have "0 < ?n" by (simp add: totalSteps_pos)
  then have "(0::int) < int (totalSteps (patterns s1) (sequence s1))"
    by (simp add: f1)
  from ticks_playing [OF p1 c1 order_refl this, of ts] obtain sN where
    "ticks ts s1 = Inr sN" "currentStep sN = Some (int (length ts) mod int ?n)"
    by (auto simp: f1)
  with s1 show "\<exists>s1 sN. start t0 s = Inr s1 \<and> ticks ts s1 = Inr sN \<and>
         currentStep sN = Some (int (length ts mod ?n))"
    by (auto simp: zmod_int)
next
  have "\<not> isPlaying (stop q)" by (simp add: stop_def)
  from start_stopped [OF this, of t1]
  show "\<exists>q'. start t1 (stop q) = Inr q' \<and>
      currentStep q' =
        Some (int (getStepForSequenceIndex (patterns q) (sequence q) (selectedSequenceIndex q)))"
    by (auto simp: stop_def)
qed

theorem transport_current_step_witness:
  "\<not> isPlaying reset \<and> selectedSequenceIndex reset = 0 \<and> sequence reset \<noteq> [] \<and>
   isPlaying playingLastStep \<and> currentStep playingLastStep = Some 31 \<and> (0::int) \<le> 31 \<and>
   sequence playingLastStep \<noteq> [] \<and>
   (\<exists>p'. startPlayingStepsUsingTimeout 0 playingLastStep = Inr p' \<and> isPlaying p' \<and>
      currentStep p' = Some 0) \<and>
   (\<exists>s1 sN. start 0 reset = Inr s1 \<and> ticks [1, 2, 3] s1 = Inr sN \<and> currentStep sN = Some 3) \<and>
   (\<exists>q'. start 1 (stop playingLastStep) = Inr q' \<and> currentStep q' = Some 16)"
proof -
  have h: "\<not> isPlaying reset" "selectedSequenceIndex reset = 0" "sequence reset \<noteq> []"
    "isPlaying playingLastStep" "currentStep playingLastStep = Some 31" "sequence playingLastStep \<noteq> []"
    by (simp_all add: reset_def playingLastStep_def)
  have p: "patterns playingLastStep = patterns reset" "sequence playingLastStep = [0, 1]"
    "selectedSequenceIndex playingLastStep = 1" "sequence reset = [0]"
    by (simp_all add: reset_def playingLastStep_def)
  have n: "totalSteps (patterns playingLastStep) (sequence playingLastStep) = 32"
    "totalSteps (patterns reset) (sequence reset) = 16"
    "getStepForSequenceIndex (patterns playingLastStep) (sequence playingLastStep) (selectedSequenceIndex playingLastStep) = 16"
    using stepsPerPattern_reset by (simp_all add: totalSteps_eq getStepForSequenceIndex_eq p)
  from transport_current_step [of reset 0 playingLastStep 31 0 "[1, 2, 3]" 1 playingLastStep] h
  show ?thesis unfolding n by (simp del: ticks.simps)
qed

text \<open>
  C2. \<^verbatim>\<open>getPatternAtStep\<close> scans the sequence accumulating the step count of each
  entry. A step at or beyond the sum of all step counts gives \<^verbatim>\<open>null\<close>; a step from 0
  up to that sum resolves to the entry \<open>k\<close> it falls inside, with that entry's pattern id
  and the step counted from the entry's first step. When the three entries of a sequence
  have step counts 8, 16 and 8, \<^verbatim>\<open>totalSteps()\<close> is 32, \<^verbatim>\<open>getStepForSequenceIndex(2)\<close>
  is 24, and step 24 resolves to the third entry at local step 0.
\<close>

theorem getPatternAtStep_resolves:
  "(int (totalSteps ps sq) \<le> g1 \<longrightarrow> getPatternAtStep ps sq g1 = None) \<and>
   (0 \<le> g2 \<and> g2 < int (totalSteps ps sq) \<longrightarrow>
      (\<exists>k < length sq.
         getPatternAtStep ps sq g2 =
           Some \<lparr> patternIndex = k,
                  stepInPattern = g2 - int (getStepForSequenceIndex ps sq k),
                  patternId = sq ! k \<rparr> \<and>
         int (getStepForSequenceIndex ps sq k) \<le> g2 \<and>
         g2 < int (getStepForSequenceIndex ps sq k + stepsPerPattern ps (sq ! k)))) \<and>
   (map (stepsPerPattern ps) sq3 = [8, 16, 8] \<longrightarrow>
      totalSteps ps sq3 = 32 \<and> getStepForSequenceIndex ps sq3 2 = 24 \<and>
      getPatternAtStep ps sq3 24 =
        Some \<lparr> patternIndex = 2, stepInPattern = 0, patternId = sq3 ! 2 \<rparr>)"
proof (intro conjI impI)
  assume "int (totalSteps ps sq) \<le> g1"
  then show "getPatternAtStep ps sq g1 = None"
    by (simp add: getPatternAtStep_def totalSteps_eq getPatternAtStep_loop_None)
next
  assume a: "0 \<le> g2 \<and> g2 < int (totalSteps ps sq)"
  then have "int 0 \<le> g2" and "g2 < int (0 + sum_list (map (stepsPerPattern ps) sq))"
    by (simp_all add: totalSteps_eq)
  from getPatternAtStep_loop_Some [OF this, of 0] obtain k where k: "k < length sq"
    and r: "getPatternAtStep ps sq g2 =
        Some \<lparr> patternIndex = k,
               stepInPattern = g2 - int (sum_list (map (stepsPerPattern ps) (take k sq))),
               patternId = sq ! k \<rparr>"
    and l: "int (sum_list (map (stepsPerPattern ps) (take k sq))) \<le> g2"
    and u: "g2 < int (sum_list (map (stepsPerPattern ps) (take (Suc k) sq)))"
    by (auto simp: getPatternAtStep_def)
  from k have "take (Suc k) sq = take k sq @ [sq ! k]"
    by (simp add: take_Suc_conv_app_nth)
  with u have "g2 < int (sum_list (map (stepsPerPattern ps) (take k sq)) + stepsPerPattern ps (sq ! k))"
    by simp
  with k r l show "\<exists>k < length sq.
         getPatternAtStep ps sq g2 =
           Some \<lparr> patternIndex = k,
                  stepInPattern = g2 - int (getStepForSequenceIndex ps sq k),
                  patternId = sq ! k \<rparr> \<and>
         int (getStepForSequenceIndex ps sq k) \<le> g2 \<and>
         g2 < int (getStepForSequenceIndex ps sq k + stepsPerPattern ps (sq ! k))"
    by (auto simp: getStepForSequenceIndex_eq)
next
  assume m: "map (stepsPerPattern ps) sq3 = [8, 16, 8]"
  then obtain a b c where sq3: "sq3 = [a, b, c]"
    and s: "stepsPerPattern ps a = 8" "stepsPerPattern ps b = 16" "stepsPerPattern ps c = 8"
    by (auto simp: map_eq_Cons_conv)
  show "totalSteps ps sq3 = 32"
    by (simp add: totalSteps_eq m)
  show "getStepForSequenceIndex ps sq3 2 = 24"
    by (simp add: getStepForSequenceIndex_eq sq3 s numeral_2_eq_2)
  show "getPatternAtStep ps sq3 24 =
        Some \<lparr> patternIndex = 2, stepInPattern = 0, patternId = sq3 ! 2 \<rparr>"
    by (simp add: getPatternAtStep_def sq3 s Let_def numeral_2_eq_2)
qed

theorem getPatternAtStep_resolves_witness:
  "int (totalSteps [createPattern 0 (Finite 2) (Finite 4), createPattern 1 (Finite 4) (Finite 4)] [0, 1, 0]) \<le> 32 \<and>
   getPatternAtStep [createPattern 0 (Finite 2) (Finite 4), createPattern 1 (Finite 4) (Finite 4)] [0, 1, 0] 32 = None \<and>
   (0::int) \<le> 17 \<and>
   17 < int (totalSteps [createPattern 0 (Finite 2) (Finite 4), createPattern 1 (Finite 4) (Finite 4)] [0, 1, 0]) \<and>
   getPatternAtStep [createPattern 0 (Finite 2) (Finite 4), createPattern 1 (Finite 4) (Finite 4)] [0, 1, 0] 17 =
     Some \<lparr> patternIndex = 1, stepInPattern = 9, patternId = 1 \<rparr> \<and>
   map (stepsPerPattern [createPattern 0 (Finite 2) (Finite 4), createPattern 1 (Finite 4) (Finite 4)]) [0, 1, 0] = [8, 16, 8] \<and>
   getStepForSequenceIndex [createPattern 0 (Finite 2) (Finite 4), createPattern 1 (Finite 4) (Finite 4)] [0, 1, 0] 2 = 24 \<and>
   getPatternAtStep [createPattern 0 (Finite 2) (Finite 4), createPattern 1 (Finite 4) (Finite 4)] [0, 1, 0] 24 =
     Some \<lparr> patternIndex = 2, stepInPattern = 0, patternId = 0 \<rparr>"
proof -
  let ?ps = "[createPattern 0 (Finite 2) (Finite 4), createPattern 1 (Finite 4) (Finite 4)]"
  have m: "map (stepsPerPattern ?ps) [0, 1, 0] = [8, 16, 8]"
    by (simp add: meter_eval)
  have t: "totalSteps ?ps [0, 1, 0] = 32"
    unfolding totalSteps_eq m by simp
  have e: "getPatternAtStep ?ps [0, 1, 0] 17 = Some \<lparr> patternIndex = 1, stepInPattern = 9, patternId = 1 \<rparr>"
    using m by (simp add: getPatternAtStep_def Let_def)
  from getPatternAtStep_resolves [of ?ps "[0, 1, 0]" 32 17 "[0, 1, 0]"] m t e
  show ?thesis by (simp add: numeral_2_eq_2)
qed

text \<open>
  C3. An arrow key pressed while notes are selected moves them as a whole or not at all.
  The selected coordinates are those \<^verbatim>\<open>getSelectedNotesArray\<close> reads. When each of them,
  translated by the key's unit step, lies in the grid of the current layer (step from 0
  below the layer's length, pitch from 0 below 72), every translated coordinate holds a
  note afterwards, every selected coordinate that is not also a target is empty, the cells
  that are neither keep their contents, and the selection is the set of translated
  coordinates. When one of them would leave the grid, the session is returned as it was.
\<close>

theorem nudge_atomic:
  assumes "getCurrentLayer s = Some layer" and "selectedNotes s \<noteq> []"
    and "arrowDelta k = Some (dS, dP)"
  shows "(list_all (inGrid (length layer)) (map (translate dS dP) (getSelectedNotesArray s)) \<longrightarrow>
            (\<exists>s'. handleKeydown t k s = Inr s' \<and>
               set (selectedNotes s') = translate dS dP ` set (getSelectedNotesArray s) \<and>
               (\<forall>c \<in> set (getSelectedNotesArray s).
                  cellActive s' (fst (translate dS dP c)) (snd (translate dS dP c)) \<and>
                  (c \<notin> translate dS dP ` set (getSelectedNotesArray s) \<longrightarrow>
                     \<not> cellActive s' (fst c) (snd c))) \<and>
               (\<forall>st p. (st, p) \<notin> set (getSelectedNotesArray s) \<and>
                        (st, p) \<notin> translate dS dP ` set (getSelectedNotesArray s) \<longrightarrow>
                        cellActive s' st p = cellActive s st p))) \<and>
         (\<not> list_all (inGrid (length layer)) (map (translate dS dP) (getSelectedNotesArray s)) \<longrightarrow>
            handleKeydown t k s = Inr s)"
proof (intro conjI impI)
  let ?old = "getSelectedNotesArray s"
  let ?new = "map (translate dS dP) ?old"
  assume b: "list_all (inGrid (length layer)) ?new"
  from assms(2) have ne: "?old \<noteq> []" by (simp add: getSelectedNotesArray_def)
  let ?s' = "(setCurrentLayer (setNotesAt_loop ?new (clearNotesAt_loop ?old layer)) s)
      \<lparr>selectedNotes := newSet ?new\<rparr>"
  have k: "handleKeydown t k s = Inr ?s'"
    using assms b ne by (simp add: handleKeydown_arrow moveSelectedNotes_in_bounds)
  have a: "\<And>st p. cellActive ?s' st p = ((st, p) \<in> set ?new \<or> (cellActive s st p \<and> (st, p) \<notin> set ?old))"
    using assms(1) b by (rule cellActive_after_move)
  have "set (selectedNotes ?s') = translate dS dP ` set ?old" by simp
  moreover have "\<forall>c \<in> set ?old.
      cellActive ?s' (fst (translate dS dP c)) (snd (translate dS dP c)) \<and>
      (c \<notin> translate dS dP ` set ?old \<longrightarrow> \<not> cellActive ?s' (fst c) (snd c))"
    unfolding a by auto
  moreover have "\<forall>st p. (st, p) \<notin> set ?old \<and> (st, p) \<notin> translate dS dP ` set ?old \<longrightarrow>
      cellActive ?s' st p = cellActive s st p"
    unfolding a by auto
  ultimately show "\<exists>s'. handleKeydown t k s = Inr s' \<and>
       set (selectedNotes s') = translate dS dP ` set ?old \<and>
       (\<forall>c \<in> set ?old.
          cellActive s' (fst (translate dS dP c)) (snd (translate dS dP c)) \<and>
          (c \<notin> translate dS dP ` set ?old \<longrightarrow> \<not> cellActive s' (fst c) (snd c))) \<and>
       (\<forall>st p. (st, p) \<notin> set ?old \<and> (st, p) \<notin> translate dS dP ` set ?old \<longrightarrow>
                cellActive s' st p = cellActive s st p)"
    using k by blast
next
  assume "\<not> list_all (inGrid (length layer)) (map (translate dS dP) (getSelectedNotesArray s))"
  with assms show "handleKeydown t k s = Inr s"
    by (simp add: handleKeydown_arrow moveSelectedNotes_out_of_bounds)
qed

theorem nudge_atomic_witness:
  "getCurrentLayer lockedChord = Some chordLayer \<and>
   getSelectedNotesArray lockedChord = [(0, 71), (0, 69)] \<and>
   arrowDelta ArrowDown = Some (0, 1) \<and> arrowDelta ArrowUp = Some (0, - 1) \<and>
   inGrid (length chordLayer) (translate 0 1 (0, 69)) \<and>
   \<not> inGrid (length chordLayer) (translate 0 1 (0, 71)) \<and>
   handleKeydown 0 ArrowDown lockedChord = Inr lockedChord \<and>
   (\<exists>s'. handleKeydown 0 ArrowUp lockedChord = Inr s' \<and>
      set (selectedNotes s') = {(0, 70), (0, 68)} \<and>
      cellActive s' 0 70 \<and> cellActive s' 0 68 \<and> \<not> cellActive s' 0 71 \<and> \<not> cellActive s' 0 69)"
proof -
  have h: "selectedNotes lockedChord \<noteq> []" "arrowDelta ArrowDown = Some (0, 1)"
    "arrowDelta ArrowUp = Some (0, - 1)"
    by (simp_all add: lockedChord_fields)
  have len: "length chordLayer = 16"
    by (simp add: chordLayer_def createStepLayer_def)
  have b: "inGrid (length chordLayer) (translate 0 1 (0, 69))"
    "\<not> inGrid (length chordLayer) (translate 0 1 (0, 71))"
    "\<not> list_all (inGrid (length chordLayer)) (map (translate 0 1) (getSelectedNotesArray lockedChord))"
    "list_all (inGrid (length chordLayer)) (map (translate 0 (- 1)) (getSelectedNotesArray lockedChord))"
    by (simp_all add: lockedChord_fields len inGrid_def translate_def NUM_PITCHES_def NUM_OCTAVES_def)
  from nudge_atomic [OF lockedChord_fields(1) h(1,2), of 0]
    nudge_atomic [OF lockedChord_fields(1) h(1,3), of 0] b
  show ?thesis
    using lockedChord_fields(1) h
    by (auto simp: lockedChord_fields translate_def)
qed

text \<open>
  C4. The registry never holds two entries with the same (synth id, MIDI note) key,
  whatever calls of \<^verbatim>\<open>playNote\<close> are made. For a legato synth, two calls for the same
  note leave exactly one entry for the key; when the second call comes more than 20 ms
  before the release time the first one scheduled, it starts no voice and the entry keeps
  the voice of the first. For a synth without legato, \<^verbatim>\<open>playNote\<close> leaves the registry
  as it was.
\<close>

theorem registry_one_entry_per_key:
  assumes "distinct (map fst (activeNotes s))"
  shows "distinct (map fst (activeNotes (dispatches ds s))) \<and>
         (legatoSameNote sy \<longrightarrow>
            length (filter (\<lambda>e. fst e = (sid sy, n))
              (activeNotes (playNote c2 n t2 d2 sy (playNote c1 n t1 d1 sy s)))) = 1) \<and>
         (legatoSameNote sy \<and> c2 < t1 + d1 - 2 / 100 \<longrightarrow>
            voiceCount (playNote c2 n t2 d2 sy (playNote c1 n t1 d1 sy s)) =
              voiceCount (playNote c1 n t1 d1 sy s) \<and>
            map_option voice (mapGet (activeNotes (playNote c2 n t2 d2 sy (playNote c1 n t1 d1 sy s))) (sid sy, n)) =
              map_option voice (mapGet (activeNotes (playNote c1 n t1 d1 sy s)) (sid sy, n))) \<and>
         (\<not> legatoSameNote sy' \<longrightarrow> activeNotes (playNote c n' t d sy' s) = activeNotes s)"
proof (intro conjI impI)
  show "distinct (map fst (activeNotes (dispatches ds s)))"
    using assms by (rule dispatches_distinct)
next
  assume "legatoSameNote sy"
  moreover from assms have "distinct (map fst (activeNotes (playNote c1 n t1 d1 sy s)))"
    by (rule playNote_distinct)
  ultimately show "length (filter (\<lambda>e. fst e = (sid sy, n))
      (activeNotes (playNote c2 n t2 d2 sy (playNote c1 n t1 d1 sy s)))) = 1"
    by (rule playNote_legato_count)
next
  assume a: "legatoSameNote sy \<and> c2 < t1 + d1 - 2 / 100"
  then obtain e where e: "mapGet (activeNotes (playNote c1 n t1 d1 sy s)) (sid sy, n) = Some e"
    and r: "releaseAt e = t1 + d1"
    using playNote_legato_entry [of sy c1 n t1 d1 s] by blast
  from a r have "c2 < releaseAt e - 2 / 100" by simp
  with a e show "voiceCount (playNote c2 n t2 d2 sy (playNote c1 n t1 d1 sy s)) =
              voiceCount (playNote c1 n t1 d1 sy s)"
    by (simp add: playNote_reenvelope)
  from a e \<open>c2 < releaseAt e - 2 / 100\<close>
  show "map_option voice (mapGet (activeNotes (playNote c2 n t2 d2 sy (playNote c1 n t1 d1 sy s))) (sid sy, n)) =
              map_option voice (mapGet (activeNotes (playNote c1 n t1 d1 sy s)) (sid sy, n))"
    by (simp add: playNote_reenvelope)
next
  assume "\<not> legatoSameNote sy'"
  then show "activeNotes (playNote c n' t d sy' s) = activeNotes s"
    by (rule playNote_nonlegato)
qed

theorem registry_one_entry_per_key_witness:
  "distinct (map fst (activeNotes reset)) \<and> legatoSameNote legatoSynth \<and>
   (1 / 8 :: rat) < 0 + 1 / 4 - 2 / 100 \<and> \<not> legatoSameNote (defaultSynths ! 1) \<and>
   activeNotes (playNote (1 / 8) 60 (1 / 8) (1 / 4) legatoSynth (playNote 0 60 0 (1 / 4) legatoSynth reset)) =
     [((0, 60), \<lparr> voice = 0, releaseAt = 3 / 8 \<rparr>)] \<and>
   voiceCount (playNote (1 / 8) 60 (1 / 8) (1 / 4) legatoSynth (playNote 0 60 0 (1 / 4) legatoSynth reset)) = 1 \<and>
   activeNotes (playNote 0 60 0 (1 / 4) (defaultSynths ! 1) reset) = []"
proof -
  have d: "distinct (map fst (activeNotes reset))"
    by (simp add: reset_def)
  have e: "activeNotes (playNote (1 / 8) 60 (1 / 8) (1 / 4) legatoSynth (playNote 0 60 0 (1 / 4) legatoSynth reset)) =
     [((0, 60), \<lparr> voice = 0, releaseAt = 3 / 8 \<rparr>)]"
    "voiceCount (playNote (1 / 8) 60 (1 / 8) (1 / 4) legatoSynth (playNote 0 60 0 (1 / 4) legatoSynth reset)) = 1"
    by (simp_all add: audio_eval)
  from registry_one_entry_per_key [OF d, of "[]" legatoSynth 60 "1 / 8" "1 / 8" "1 / 4" 0 0 "1 / 4"
      "defaultSynths ! 1" 0 60 0 "1 / 4"] d e
  show ?thesis
    by (simp add: legatoSynth_def defaultSynths_def reset_def)
qed

text \<open>
  C5. After the meter of a pattern of the pool is set to \<open>b\<close> beats per measure and \<open>s\<close>
  steps per beat and the resize effect has run, every layer of that pattern has
  \<open>spec_clamp b 1 16 * spec_clamp s 1 16\<close> steps, each factor lying between 1 and 16 and, for
  a whole number, being that number brought into the range; a layer that
  was not longer is its old contents followed by empty steps only, and a layer that was
  not shorter is the prefix of its old contents of that length. Pattern ids in the pool
  are distinct, as \<^verbatim>\<open>reset\<close> creates them.
\<close>

theorem resize_length_and_prefix:
  assumes "distinct (map pid ps)" and "i < length ps"
  shows "length (layers (setMeter ps i b s ! i)) = length (layers (ps ! i)) \<and>
         (\<forall>j < length (layers (ps ! i)).
            length (layers (setMeter ps i b s ! i) ! j) = spec_clamp b 1 16 * spec_clamp s 1 16 \<and>
            (length (layers (ps ! i) ! j) \<le> spec_clamp b 1 16 * spec_clamp s 1 16 \<longrightarrow>
               layers (setMeter ps i b s ! i) ! j =
                 layers (ps ! i) ! j @
                 replicate (spec_clamp b 1 16 * spec_clamp s 1 16 - length (layers (ps ! i) ! j))
                   (replicate NUM_PITCHES False)) \<and>
            (spec_clamp b 1 16 * spec_clamp s 1 16 \<le> length (layers (ps ! i) ! j) \<longrightarrow>
               layers (setMeter ps i b s ! i) ! j =
                 take (spec_clamp b 1 16 * spec_clamp s 1 16) (layers (ps ! i) ! j))) \<and>
         1 \<le> spec_clamp b 1 16 \<and> spec_clamp b 1 16 \<le> 16 \<and> 1 \<le> spec_clamp s 1 16 \<and> spec_clamp s 1 16 \<le> 16 \<and>
         (\<forall>n. spec_clamp (Finite (of_int n)) 1 16 = (if n < 1 then 1 else if 16 < n then 16 else nat n))"
proof -
  let ?n = "spec_clamp b 1 16 * spec_clamp s 1 16"
  let ?ps = "ps[i := (ps ! i)\<lparr>beatsPerMeasure := b, patStepsPerBeat := s\<rparr>]"
  have n: "stepsPerPattern ?ps (pid (ps ! i)) = ?n"
    using stepsPerPattern_meter_update [OF assms]
    by (simp add: clampBeatsPerMeasure_clamp clampStepsPerBeat_clamp)
  have new: "layers (setMeter ps i b s ! i) = map (resizeLayer ?n) (layers (ps ! i))"
    using assms(2) by (simp add: setMeter_def resizeEffect_def n)
  have r: "1 \<le> spec_clamp b 1 16 \<and> spec_clamp b 1 16 \<le> 16" "1 \<le> spec_clamp s 1 16 \<and> spec_clamp s 1 16 \<le> 16"
    by (rule clamp_range, simp)+
  have w: "\<forall>n. spec_clamp (Finite (of_int n)) 1 16 = (if n < 1 then 1 else if 16 < n then 16 else nat n)"
    by (simp add: spec_clamp_def js_trunc_def max_def min_def)
  have "length (layers (setMeter ps i b s ! i)) = length (layers (ps ! i)) \<and>
         (\<forall>j < length (layers (ps ! i)).
            length (layers (setMeter ps i b s ! i) ! j) = ?n \<and>
            (length (layers (ps ! i) ! j) \<le> ?n \<longrightarrow>
               layers (setMeter ps i b s ! i) ! j =
                 layers (ps ! i) ! j @
                 replicate (?n - length (layers (ps ! i) ! j)) (replicate NUM_PITCHES False)) \<and>
            (?n \<le> length (layers (ps ! i) ! j) \<longrightarrow>
               layers (setMeter ps i b s ! i) ! j = take ?n (layers (ps ! i) ! j)))"
    by (simp add: new resizeLayer_length resizeLayer_grow resizeLayer_shrink emptyStep_def)
  with r w show ?thesis by blast
qed

theorem resize_length_and_prefix_witness:
  "distinct (map pid (patterns lockedOverlap)) \<and> (0::nat) < length (patterns lockedOverlap) \<and>
   layers (patterns lockedOverlap ! 0) ! 0 = twoNoteLayer \<and> length twoNoteLayer = 16 \<and>
   hasNoteAt twoNoteLayer 0 0 \<and> hasNoteAt twoNoteLayer 1 0 \<and>
   spec_clamp (Finite 5) 1 16 * spec_clamp (Finite 4) 1 16 = 20 \<and>
   layers (setMeter (patterns lockedOverlap) 0 (Finite 5) (Finite 4) ! 0) ! 0 =
     twoNoteLayer @ replicate 4 (replicate NUM_PITCHES False) \<and>
   spec_clamp (Finite (1 / 2)) 1 16 * spec_clamp NonFinite 1 16 = 1 \<and>
   layers (setMeter (patterns lockedOverlap) 0 (Finite (1 / 2)) NonFinite ! 0) ! 0 =
     take 1 twoNoteLayer \<and>
   hasNoteAt (take 1 twoNoteLayer) 0 0 \<and> \<not> hasNoteAt (take 1 twoNoteLayer) 1 0 \<and>
   spec_clamp (Finite 40) 1 16 * spec_clamp (Finite (- 3)) 1 16 = 16 \<and>
   layers (setMeter (patterns lockedOverlap) 0 (Finite 40) (Finite (- 3)) ! 0) ! 0 = twoNoteLayer"
proof -
  have d: "distinct (map pid (patterns lockedOverlap))" and i: "0 < length (patterns lockedOverlap)"
    by (simp_all add: patterns_lockedOverlap createPattern_def Let_def)
  have l: "layers (patterns lockedOverlap ! 0) = [twoNoteLayer, createStepLayer 16]"
    by (simp add: patterns_lockedOverlap)
  have len: "length twoNoteLayer = 16" by (rule lockedOverlap_fields)
  have c1: "spec_clamp (Finite 5) 1 16 * spec_clamp (Finite 4) 1 16 = 20"
    and c2: "spec_clamp (Finite (1 / 2)) 1 16 * spec_clamp NonFinite 1 16 = 1"
    and c3: "spec_clamp (Finite 40) 1 16 * spec_clamp (Finite (- 3)) 1 16 = 16"
    by (simp_all add: clamp_eq js_trunc_def) (simp add: spec_clamp_def)
  have h: "hasNoteAt (take 1 twoNoteLayer) 0 0" "\<not> hasNoteAt (take 1 twoNoteLayer) 1 0"
    using hasNoteAt_twoNoteLayer [of 0 0] by (simp_all add: hasNoteAt_def len)
  note grow = resize_length_and_prefix [OF d i, of "Finite 5" "Finite 4",
      unfolded c1, THEN conjunct2, THEN conjunct1, rule_format, of 0]
  note shrink = resize_length_and_prefix [OF d i, of "Finite (1 / 2)" NonFinite,
      unfolded c2, THEN conjunct2, THEN conjunct1, rule_format, of 0]
  note same = resize_length_and_prefix [OF d i, of "Finite 40" "Finite (- 3)",
      unfolded c3, THEN conjunct2, THEN conjunct1, rule_format, of 0]
  from grow shrink same i h show ?thesis
    unfolding c1 c2 c3 by (simp add: d l len hasNoteAt_twoNoteLayer)
qed

text \<open>
  C6. The claim is that with the lock on no write changes a cell at an out-of-scale pitch.
  The session is reached from the initial one by painting the notes at pitches 71 (C) and
  69 (D) of step 0, adding both to the selection and switching the lock on, in C natural
  minor. Pitch 67 (E) of step 0, out of scale, is empty. Painting refuses the cell:
  \<^verbatim>\<open>setCell\<close> at it and a pointer-down on it return the session as it was. The drag does
  not: pressing on the note at 71 and entering the cell at 69, both enabled cells, writes
  a note at pitch 67, with and without the clone modifier.
\<close>

theorem scale_lock_missing_in_drag:
  "run 0 [PointerDown 0 71 noModifiers, PointerUp, PointerDown 0 69 noModifiers, PointerUp,
          PointerDown 0 71 shiftHeld, PointerUp, PointerDown 0 69 shiftHeld, PointerUp,
          AllowNonScaleNotes False] reset = Inr lockedChord \<and>
   \<not> allowNonScaleNotes lockedChord \<and>
   \<not> isInScale (key lockedChord) (scale lockedChord) 67 \<and>
   isInScale (key lockedChord) (scale lockedChord) 69 \<and>
   isInScale (key lockedChord) (scale lockedChord) 71 \<and>
   \<not> cellActive lockedChord 0 67 \<and>
   setCell 0 67 True lockedChord = Inr lockedChord \<and>
   mousedownOnCell 0 67 noModifiers lockedChord = Inr lockedChord \<and>
   (case mousedownOnCell 0 71 noModifiers lockedChord of
      Inl err \<Rightarrow> False
    | Inr s1 \<Rightarrow>
        (case handleCellMouseenter 0 69 False s1 of
           Inl err \<Rightarrow> False
         | Inr s2 \<Rightarrow> cellActive s2 0 67)) \<and>
   (case mousedownOnCell 0 71 (noModifiers\<lparr>altKey := True\<rparr>) lockedChord of
      Inl err \<Rightarrow> False
    | Inr s1 \<Rightarrow>
        (case handleCellMouseenter 0 69 False s1 of
           Inl err \<Rightarrow> False
         | Inr s2 \<Rightarrow> cellActive s2 0 67))"
proof -
  have "\<not> cellActive lockedChord 0 67"
    by (simp add: cellActive_layer [OF lockedChord_fields(1)] hasNoteAt_chordLayer)
  moreover have "setCell 0 67 True lockedChord = Inr lockedChord"
    "mousedownOnCell 0 67 noModifiers lockedChord = Inr lockedChord"
    using locked_cell_rejects_paint [of lockedChord 67 0 True noModifiers]
    by (simp_all add: lockedChord_fields isInScale_C_minor)
  moreover note lockedChord_drag [of noModifiers] lockedChord_drag [of "noModifiers\<lparr>altKey := True\<rparr>"]
  ultimately show ?thesis
    using reach_lockedChord [of 0]
    by (simp add: lockedChord_fields isInScale_C_minor noModifiers_def del: run.simps)
qed

text \<open>
  C7. A write at a coordinate outside the grid of the current layer returns the session
  as it was. \<^verbatim>\<open>setNotesAt\<close>, the writer of the drag and of the keyboard nudge, skips
  every position outside the grid, whatever its step and pitch. \<^verbatim>\<open>setCell\<close> is called
  with the coordinates of a rendered cell and \<^verbatim>\<open>clearNotesAt\<close> with selected or dragged
  coordinates: the pitch lies from 0 below 72 and the step passed to \<^verbatim>\<open>setCell\<close> is not
  negative. For these coordinates \<^verbatim>\<open>setCell\<close> and \<^verbatim>\<open>clearNotesAt\<close> return the session
  unchanged outside the grid, and \<^verbatim>\<open>clearNotesAt\<close> skips the positions outside the grid
  of a list.
\<close>

theorem out_of_bounds_writes_ignored:
  assumes "getCurrentLayer s = Some layer"
  shows "setNotesAt ps s = setNotesAt (filter (inGrid (length layer)) ps) s \<and>
         (\<not> inGrid (length layer) (step, pitch) \<longrightarrow> setNotesAt [(step, pitch)] s = s) \<and>
         (\<not> inGrid (length layer) (step, pitch) \<and> 0 \<le> step \<and> 0 \<le> pitch \<and> pitch < int NUM_PITCHES \<longrightarrow>
            setCell step pitch v s = Inr s) \<and>
         (\<not> inGrid (length layer) (step, pitch) \<and> 0 \<le> pitch \<and> pitch < int NUM_PITCHES \<longrightarrow>
            clearNotesAt [(step, pitch)] s = s) \<and>
         ((\<forall>c \<in> set ps. 0 \<le> snd c \<and> snd c < int NUM_PITCHES) \<longrightarrow>
            clearNotesAt ps s = clearNotesAt (filter (inGrid (length layer)) ps) s)"
proof (intro conjI impI)
  show "setNotesAt ps s = setNotesAt (filter (inGrid (length layer)) ps) s"
    unfolding setNotesAt_layer [OF assms] by (subst setNotesAt_loop_filter) (rule refl)
  show "setNotesAt [(step, pitch)] s = s" if "\<not> inGrid (length layer) (step, pitch)"
    unfolding setNotesAt_layer [OF assms] setNotesAt_loop_Cons
    using that by (simp add: setCurrentLayer_same [OF assms])
  show "setCell step pitch v s = Inr s"
    if h: "\<not> inGrid (length layer) (step, pitch) \<and> 0 \<le> step \<and> 0 \<le> pitch \<and> pitch < int NUM_PITCHES"
  proof -
    from h have "int (length layer) \<le> step" by (auto simp: inGrid_def)
    with assms show ?thesis by (simp add: setCell_def)
  qed
  show "clearNotesAt [(step, pitch)] s = s"
    if h: "\<not> inGrid (length layer) (step, pitch) \<and> 0 \<le> pitch \<and> pitch < int NUM_PITCHES"
  proof -
    from h have "\<not> (0 \<le> step \<and> nat step < length layer)"
      by (auto simp: inGrid_def)
    then show ?thesis
      by (auto simp: clearNotesAt_layer [OF assms] setCurrentLayer_same [OF assms])
  qed
  show "clearNotesAt ps s = clearNotesAt (filter (inGrid (length layer)) ps) s"
    if "\<forall>c \<in> set ps. 0 \<le> snd c \<and> snd c < int NUM_PITCHES"
    unfolding clearNotesAt_layer [OF assms]
    by (subst clearNotesAt_loop_filter [OF that]) (rule refl)
qed

theorem out_of_bounds_writes_ignored_witness:
  "getCurrentLayer reset = Some (createStepLayer 16) \<and> length (createStepLayer 16) = 16 \<and>
   \<not> inGrid 16 (- 1, 0) \<and> \<not> inGrid 16 (0, 72) \<and> \<not> inGrid 16 (16, 0) \<and> \<not> inGrid 16 (0, - 1) \<and>
   inGrid 16 (3, 4) \<and>
   setNotesAt [(- 1, 0), (0, 72), (3, 4), (16, 0), (0, - 1)] reset = setNotesAt [(3, 4)] reset \<and>
   setNotesAt [(0, 72)] reset = reset \<and> setNotesAt [(- 1, 0)] reset = reset \<and>
   setCell 16 0 True reset = Inr reset \<and>
   clearNotesAt [(16, 0)] reset = reset \<and> clearNotesAt [(- 1, 71)] reset = reset \<and>
   clearNotesAt [(16, 0), (3, 4), (- 1, 71)] reset = clearNotesAt [(3, 4)] reset"
proof -
  note l = getCurrentLayer_reset
  have g: "\<not> inGrid 16 (- 1, 0)" "\<not> inGrid 16 (0, 72)" "\<not> inGrid 16 (16, 0)" "\<not> inGrid 16 (0, - 1)"
    "inGrid 16 (3, 4)" "\<not> inGrid 16 (- 1, 71)"
    by (simp_all add: inGrid_def NUM_PITCHES_def NUM_OCTAVES_def)
  have n: "length (createStepLayer 16) = 16" by (rule length_createStepLayer)
  have p: "int NUM_PITCHES = 72" by (simp add: NUM_PITCHES_def NUM_OCTAVES_def)
  note t = out_of_bounds_writes_ignored [OF l, unfolded n p]
  have a: "setNotesAt [(- 1, 0), (0, 72), (3, 4), (16, 0), (0, - 1)] reset = setNotesAt [(3, 4)] reset"
    using t [of "[(- 1, 0), (0, 72), (3, 4), (16, 0), (0, - 1)]" 0 0 True, THEN conjunct1] g by simp
  have b: "setNotesAt [(0, 72)] reset = reset" "setNotesAt [(- 1, 0)] reset = reset"
    using t [of "[]" 0 72 True, THEN conjunct2, THEN conjunct1]
      t [of "[]" "- 1" 0 True, THEN conjunct2, THEN conjunct1] g by simp_all
  have c: "setCell 16 0 True reset = Inr reset"
    using t [of "[]" 16 0 True, THEN conjunct2, THEN conjunct2, THEN conjunct1] g by simp
  have d: "clearNotesAt [(16, 0)] reset = reset" "clearNotesAt [(- 1, 71)] reset = reset"
    using t [of "[]" 16 0 True, THEN conjunct2, THEN conjunct2, THEN conjunct2, THEN conjunct1]
      t [of "[]" "- 1" 71 True, THEN conjunct2, THEN conjunct2, THEN conjunct2, THEN conjunct1] g
    by simp_all
  have e: "clearNotesAt [(16, 0), (3, 4), (- 1, 71)] reset = clearNotesAt [(3, 4)] reset"
    using t [of "[(16, 0), (3, 4), (- 1, 71)]" 0 0 True, THEN conjunct2, THEN conjunct2,
        THEN conjunct2, THEN conjunct2] g by simp
  from l n g a b c d e show ?thesis by simp
qed

text \<open>
  C8. The claim is that every selected coordinate holds a note of the displayed layer.
  From the initial session, painting cell (0, 0), releasing, adding it to the selection
  with the additive modifier and releasing gives a session where the claim holds. The
  Clear button then empties the pattern and leaves the selection as it was: (0, 0) is
  selected and holds no note. The synth buttons empty the selection when they switch
  the layer.
\<close>

theorem selection_survives_clearPattern:
  "run 0 [PointerDown 0 0 noModifiers, PointerUp, PointerDown 0 0 shiftHeld, PointerUp] reset =
     Inr oneNoteSelected \<and>
   selectedNotes oneNoteSelected = [(0, 0)] \<and> cellActive oneNoteSelected 0 0 \<and>
   run 0 [PointerDown 0 0 noModifiers, PointerUp, PointerDown 0 0 shiftHeld, PointerUp, ClearButton]
     reset = Inr (clearPattern oneNoteSelected) \<and>
   selectedNotes (clearPattern oneNoteSelected) = [(0, 0)] \<and>
   \<not> cellActive (clearPattern oneNoteSelected) 0 0 \<and>
   selectedNotes (selectSequenceCell 0 oneNoteSelected) = [(0, 0)] \<and>
   selectedNotes (selectSynth 1 oneNoteSelected) = []"
proof -
  have "cellActive oneNoteSelected 0 0"
    by (simp add: cellActive_layer [OF getCurrentLayer_oneNoteSelected] hasNoteAt_oneNoteLayer)
  moreover have "\<not> cellActive (clearPattern oneNoteSelected) 0 0"
    by (simp add: cellActive_layer [OF clearPattern_oneNoteSelected(1)] hasNoteAt_createStepLayer)
  moreover have "run 0 ([PointerDown 0 0 noModifiers, PointerUp, PointerDown 0 0 shiftHeld, PointerUp]
      @ [ClearButton]) reset = Inr (clearPattern oneNoteSelected)"
    unfolding run_append reach_oneNoteSelected by simp
  ultimately show ?thesis
    using reach_oneNoteSelected [of 0]
    by (simp add: clearPattern_oneNoteSelected oneNoteSelected_fields selectSynth_def
        selectSequenceCell_def del: run.simps)
qed




text \<open>
  C10. An arrow key whose targets all lie in the grid leaves each cell of the current
  layer active exactly if it is a target, or held a note before and was not selected.
  A target is active afterwards whatever it held: the session after the key is the same,
  cell for cell and in its selection, when an unselected note had been put on a target
  beforehand. \<^verbatim>\<open>dragOverwrittenNotes\<close> is not touched, and the value of
  \<^verbatim>\<open>allowNonScaleNotes\<close> has no effect on the result, so a target at an out-of-scale
  pitch is written with the lock on.
\<close>

theorem nudge_overwrites_destination:
  assumes "getCurrentLayer s = Some layer" and "selectedNotes s \<noteq> []"
    and "arrowDelta k = Some (dS, dP)"
    and "list_all (inGrid (length layer)) (map (translate dS dP) (getSelectedNotesArray s))"
  shows "\<exists>s'. handleKeydown t k s = Inr s' \<and>
           (\<forall>st p. cellActive s' st p =
              ((st, p) \<in> translate dS dP ` set (getSelectedNotesArray s) \<or>
               (cellActive s st p \<and> (st, p) \<notin> set (getSelectedNotesArray s)))) \<and>
           (\<forall>c \<in> translate dS dP ` set (getSelectedNotesArray s).
              cellActive s' (fst c) (snd c) \<and>
              (\<forall>s''. handleKeydown t k (setNotesAt [c] s) = Inr s'' \<longrightarrow>
                 selectedNotes s'' = selectedNotes s' \<and>
                 (\<forall>st p. cellActive s'' st p = cellActive s' st p))) \<and>
           dragOverwrittenNotes s' = dragOverwrittenNotes s \<and>
           handleKeydown t k (s\<lparr>allowNonScaleNotes := a\<rparr>) = Inr (s'\<lparr>allowNonScaleNotes := a\<rparr>)"
proof -
  let ?old = "getSelectedNotesArray s"
  let ?new = "map (translate dS dP) ?old"
  from assms(2) have ne: "?old \<noteq> []" by (simp add: getSelectedNotesArray_def)
  let ?s' = "(setCurrentLayer (setNotesAt_loop ?new (clearNotesAt_loop ?old layer)) s)
      \<lparr>selectedNotes := newSet ?new\<rparr>"
  have k: "handleKeydown t k s = Inr ?s'"
    using assms ne by (simp add: handleKeydown_arrow moveSelectedNotes_in_bounds)
  have a: "\<And>st p. cellActive ?s' st p = ((st, p) \<in> set ?new \<or> (cellActive s st p \<and> (st, p) \<notin> set ?old))"
    using assms(1,4) by (rule cellActive_after_move)
  have other: "selectedNotes s'' = selectedNotes ?s' \<and> (\<forall>st p. cellActive s'' st p = cellActive ?s' st p)"
    if c: "c \<in> set ?new" and r: "handleKeydown t k (setNotesAt [c] s) = Inr s''" for c s''
  proof -
    let ?sc = "setNotesAt [c] s"
    let ?lc = "setNotesAt_loop [c] layer"
    have sc: "?sc = setCurrentLayer ?lc s"
      using assms(1) by (rule setNotesAt_layer)
    have lc: "getCurrentLayer ?sc = Some ?lc"
      unfolding sc using assms(1) by (rule getCurrentLayer_setCurrentLayer)
    have sel: "selectedNotes ?sc = selectedNotes s" "getSelectedNotesArray ?sc = ?old"
      unfolding sc by (simp_all add: getSelectedNotesArray_def)
    have b: "list_all (inGrid (length ?lc)) (map (translate dS dP) (getSelectedNotesArray ?sc))"
      using assms(4) by (simp add: sel)
    let ?sc' = "(setCurrentLayer (setNotesAt_loop ?new (clearNotesAt_loop ?old ?lc)) ?sc)
      \<lparr>selectedNotes := newSet ?new\<rparr>"
    have "handleKeydown t k ?sc = Inr ?sc'"
      using lc sel assms(2,3) b ne
      by (simp add: handleKeydown_arrow moveSelectedNotes_in_bounds)
    with r have s'': "s'' = ?sc'" by simp
    have ac: "\<And>st p. cellActive ?sc' st p =
        ((st, p) \<in> set ?new \<or> (cellActive ?sc st p \<and> (st, p) \<notin> set ?old))"
      using lc b [unfolded sel] by (rule cellActive_after_move)
    have cc: "\<And>st p. cellActive ?sc st p = (cellActive s st p \<or> ((st, p) = c \<and> inGrid (length layer) c))"
      using assms(1) lc by (auto simp: cellActive_layer hasNoteAt_set)
    have "\<And>st p. cellActive ?sc' st p = cellActive ?s' st p"
      unfolding ac a cc using c by auto
    then show ?thesis unfolding s'' by simp
  qed
  have "dragOverwrittenNotes ?s' = dragOverwrittenNotes s" by simp
  moreover have "handleKeydown t k (s\<lparr>allowNonScaleNotes := a\<rparr>) = Inr (?s'\<lparr>allowNonScaleNotes := a\<rparr>)"
  proof -
    have "handleKeydown t k (s\<lparr>allowNonScaleNotes := a\<rparr>) =
        Inr ((setCurrentLayer (setNotesAt_loop ?new (clearNotesAt_loop ?old layer)) (s\<lparr>allowNonScaleNotes := a\<rparr>))
          \<lparr>selectedNotes := newSet ?new\<rparr>)"
      using assms ne by (simp add: handleKeydown_arrow moveSelectedNotes_in_bounds)
    then show ?thesis by (simp add: setCurrentLayer_allowNonScaleNotes)
  qed
  moreover have "\<forall>c \<in> translate dS dP ` set ?old.
      cellActive ?s' (fst c) (snd c) \<and>
      (\<forall>s''. handleKeydown t k (setNotesAt [c] s) = Inr s'' \<longrightarrow>
         selectedNotes s'' = selectedNotes ?s' \<and>
         (\<forall>st p. cellActive s'' st p = cellActive ?s' st p))"
  proof
    fix c assume c: "c \<in> translate dS dP ` set ?old"
    then have "c \<in> set ?new" by simp
    with other [of c] a [of "fst c" "snd c"]
    show "cellActive ?s' (fst c) (snd c) \<and>
      (\<forall>s''. handleKeydown t k (setNotesAt [c] s) = Inr s'' \<longrightarrow>
         selectedNotes s'' = selectedNotes ?s' \<and>
         (\<forall>st p. cellActive s'' st p = cellActive ?s' st p))"
      by simp
  qed
  moreover have "\<forall>st p. cellActive ?s' st p =
      ((st, p) \<in> translate dS dP ` set ?old \<or> (cellActive s st p \<and> (st, p) \<notin> set ?old))"
    using a by simp
  ultimately show ?thesis using k by blast
qed

theorem nudge_overwrites_destination_witness:
  "run 0 [PointerDown 0 0 noModifiers, PointerUp, PointerDown 1 0 noModifiers, PointerUp,
          PointerDown 0 0 shiftHeld, PointerUp, AllowNonScaleNotes False] reset =
     Inr lockedOverlap \<and>
   getCurrentLayer lockedOverlap = Some twoNoteLayer \<and>
   selectedNotes lockedOverlap \<noteq> [] \<and> arrowDelta ArrowRight = Some (1, 0) \<and>
   list_all (inGrid (length twoNoteLayer))
     (map (translate 1 0) (getSelectedNotesArray lockedOverlap)) \<and>
   \<not> allowNonScaleNotes lockedOverlap \<and>
   \<not> isInScale (key lockedOverlap) (scale lockedOverlap) 0 \<and>
   cellActive lockedOverlap 1 0 \<and> (1, 0) \<notin> set (selectedNotes lockedOverlap) \<and>
   (\<exists>s'. handleKeydown 0 ArrowRight lockedOverlap = Inr s' \<and>
      cellActive s' 1 0 \<and> \<not> cellActive s' 0 0 \<and>
      dragOverwrittenNotes s' = dragOverwrittenNotes lockedOverlap)"
proof -
  have h: "selectedNotes lockedOverlap \<noteq> []" "arrowDelta ArrowRight = Some (1, 0)"
    by (simp_all add: lockedOverlap_fields)
  have b: "list_all (inGrid (length twoNoteLayer))
     (map (translate 1 0) (getSelectedNotesArray lockedOverlap))"
    by (simp add: lockedOverlap_fields inGrid_def translate_def NUM_PITCHES_def NUM_OCTAVES_def)
  have c: "cellActive lockedOverlap 1 0"
    by (simp add: cellActive_layer [OF lockedOverlap_fields(1)] hasNoteAt_twoNoteLayer)
  from nudge_overwrites_destination [OF lockedOverlap_fields(1) h b, of 0 False] b c h
  show ?thesis
    using lockedOverlap_fields isInScale_C_minor_0 reach_lockedOverlap [of 0]
    by (auto simp: translate_def simp del: run.simps)
qed
end
